theory Spec2Isabelle
  imports Main "HOL-Library.Word"
begin

section \<open>The tree-node store\<close>

text \<open>
  The operations of \<^verbatim>\<open>src/core/mst-operations.ts\<close> are thin accessors over the class
  \<^verbatim>\<open>Node\<close>. A \<^verbatim>\<open>Node\<close> is a mutable object that other nodes point to, so nodes live in a
  store and are named by references. A tree value (\<^verbatim>\<open>IStateTreeNode\<close>) is identified
  with the reference of the node that owns it, which makes \<^verbatim>\<open>getStateTreeNode\<close> the
  lookup in the store. Depths are JavaScript numbers used as counters; they are modelled
  as unbounded integers, which is exact for integers of magnitude below \<open>2\<^sup>5\<^sup>3\<close>, where
  the decrement of a JavaScript number is exact.
\<close>

type_synonym ref = nat

type_synonym tyref = nat

datatype op = Add | Remove | Replace

text \<open>
  The shapes of a patch, \<^verbatim>\<open>{op, path, value?, oldValue?}\<close>, and of a serialized action
  call, \<^verbatim>\<open>{name, path, args}\<close>; the field names carry a prefix.
\<close>

record 'v IJsonPatch =
  patch_op :: op
  patch_path :: string
  patch_value :: "'v option"
  patch_oldValue :: "'v option"

record 'v ISerializedActionCall =
  call_name :: string
  call_path :: string
  call_args :: "'v list"

text \<open>
  A listener is a JavaScript closure. The two closures that the source itself creates
  are named; every other callback is an opaque handle, and what it does when called lies
  outside this development.
\<close>

datatype patchListener =
    PushPatch ref       \<comment> \<open>\<^verbatim>\<open>patch => { recorder.patches.push(patch) }\<close>, for the recorder at the reference\<close>
  | PatchCallback nat

datatype actionListener =
    PushAction ref      \<comment> \<open>\<^verbatim>\<open>recorder.actions.push.bind(recorder.actions)\<close>, for the recorder at the reference\<close>
  | ActionCallback nat

text \<open>
  The fields of a node follow the data model of the specification. The flag \<open>isAlive\<close> is
  the field \<open>nodeIsAlive\<close>, since \<^verbatim>\<open>isAlive\<close> also names an operation of the source. The
  children that a node owns are kept by name in \<open>childNodes\<close>. The identifier cache maps
  a type and an identifier string to a node. Snapshot listeners and disposers are
  callbacks of the application and are opaque handles. The flag \<open>isRunningAction\<close> is the
  action-call scope of the protection contract: like the protection flag it is kept at
  the root of a tree, and it is true while an action of the tree runs.
\<close>

record 'v Node =
  storedValue :: 'v
  parent :: "ref option"
  subpath :: string
  childNodes :: "string \<rightharpoonup> ref"
  nodeIsAlive :: bool
  isProtectionEnabled :: bool
  isRunningAction :: bool
  identifierCache :: "(tyref \<times> string \<rightharpoonup> ref) option"
  patchSubscribers :: "patchListener list"
  snapshotSubscribers :: "nat list"
  actionSubscribers :: "actionListener list"
  disposers :: "nat list"

type_synonym 'v heap = "ref \<Rightarrow> 'v Node"

text \<open>
  Every error of the source is raised by \<^verbatim>\<open>fail(message)\<close>. One constructor stands for
  each message of the source, with the values the message interpolates:
  \<^item> \<open>InvalidDepth d\<close>: \<^verbatim>\<open>Invalid depth: ${depth}, should be >= 1\<close>
  \<^item> \<open>ParentNotFound n d\<close>: \<^verbatim>\<open>Failed to find the parent of ${node} at depth ${depth}\<close>
  \<^item> \<open>ProtectNonRoot\<close>: \<^verbatim>\<open>`protect` can only be invoked on root nodes\<close>
  \<^item> \<open>UnprotectNonRoot\<close>: \<^verbatim>\<open>`unprotect` can only be invoked on root nodes\<close>
  \<^item> \<open>ExpectedType\<close>: \<^verbatim>\<open>Expected a type as first argument\<close>

  The remaining constructors are the error kinds that the specification gives to the
  methods of \<^verbatim>\<open>Node\<close>, and the \<^verbatim>\<open>TypeError\<close> of the JavaScript runtime.
\<close>

datatype error =
    InvalidDepth int
  | ParentNotFound ref int
  | ProtectNonRoot
  | UnprotectNonRoot
  | ExpectedType
  | DeadNodeError
  | ResolutionError
  | PatchApplicationError
  | ProtectedTreeError
  | TypeError

text \<open>
  Modelled from the spec: the source raises one untyped error; the kinds are those of
  section 7 of the specification, where \<open>InvalidArgumentError\<close> covers a negative depth,
  a non-root target of \<^verbatim>\<open>protect\<close>/\<^verbatim>\<open>unprotect\<close>, and a non-type argument where a type
  is required.
\<close>

fun isInvalidArgumentError :: "error \<Rightarrow> bool" where
  "isInvalidArgumentError (InvalidDepth d) = True"
| "isInvalidArgumentError ProtectNonRoot = True"
| "isInvalidArgumentError UnprotectNonRoot = True"
| "isInvalidArgumentError ExpectedType = True"
| "isInvalidArgumentError e = False"

text \<open>The error of \<^verbatim>\<open>fail(`Invalid depth: ${depth}, should be >= 1`)\<close>.\<close>

fun reportsDepthAtLeastOne :: "error \<Rightarrow> bool" where
  "reportsDepthAtLeastOne (InvalidDepth d) = True"
| "reportsDepthAtLeastOne e = False"

definition getStateTreeNode :: "'v heap \<Rightarrow> ref \<Rightarrow> 'v Node" where
  "getStateTreeNode h target = h target"

subsection \<open>Walking the parent chain\<close>

text \<open>
  \<^verbatim>\<open>
  while (parent) {
      if (--depth === 0) return true
      parent = parent.parent
  }
  return false
  \<close>
  The loop ends when the chain ends or the counter reaches zero. In a store whose parent
  links form a cycle, a counter that starts at or below zero never stops it, so the loop
  is a partial function and \<open>None\<close> is a run that does not return.
\<close>

partial_function (option) hasParent_loop :: "'v heap \<Rightarrow> ref option \<Rightarrow> int \<Rightarrow> bool option" where
  "hasParent_loop h par depth =
     (case par of
        None \<Rightarrow> Some False
      | Some p \<Rightarrow>
          if depth - 1 = 0 then Some True
          else hasParent_loop h (parent (h p)) (depth - 1))"

declare hasParent_loop.simps [code]

definition hasParent :: "'v heap \<Rightarrow> ref \<Rightarrow> int option \<Rightarrow> (error + bool) option" where
  "hasParent h target depth_arg =
     (let depth = (case depth_arg of None \<Rightarrow> 1 | Some d \<Rightarrow> d) in
      if depth < 0 then Some (Inl (InvalidDepth depth))
      else map_option Inr (hasParent_loop h (parent (getStateTreeNode h target)) depth))"

text \<open>
  \<^verbatim>\<open>
  while (parent) {
      if (--d === 0) return parent.storedValue
      parent = parent.parent
  }
  return fail(...)
  \<close>
  The loop of \<^verbatim>\<open>getParent\<close>: \<open>Some (Some v)\<close> is the early return, \<open>Some None\<close> is
  leaving the loop, after which the function fails.
\<close>

partial_function (option) getParent_loop :: "'v heap \<Rightarrow> ref option \<Rightarrow> int \<Rightarrow> 'v option option" where
  "getParent_loop h par d =
     (case par of
        None \<Rightarrow> Some None
      | Some p \<Rightarrow>
          if d - 1 = 0 then Some (Some (storedValue (h p)))
          else getParent_loop h (parent (h p)) (d - 1))"

declare getParent_loop.simps [code]

definition getParent :: "'v heap \<Rightarrow> ref \<Rightarrow> int option \<Rightarrow> (error + 'v) option" where
  "getParent h target depth_arg =
     (let depth = (case depth_arg of None \<Rightarrow> 1 | Some d \<Rightarrow> d) in
      if depth < 0 then Some (Inl (InvalidDepth depth))
      else map_option (\<lambda>r. case r of None \<Rightarrow> Inl (ParentNotFound target depth) | Some v \<Rightarrow> Inr v)
             (getParent_loop h (parent (getStateTreeNode h target)) depth))"

text \<open>
  The node \<open>k\<close> steps up the parent chain, by recursion on the number of steps; \<open>None\<close>
  when the chain is shorter.
\<close>

fun ancestorAt :: "'v heap \<Rightarrow> ref \<Rightarrow> nat \<Rightarrow> ref option" where
  "ancestorAt h n 0 = Some n"
| "ancestorAt h n (Suc k) = (case parent (h n) of None \<Rightarrow> None | Some p \<Rightarrow> ancestorAt h p k)"

text \<open>
  The tree invariant of the specification: the parent chain of a node ends at a root.
\<close>

inductive chainEnds :: "'v heap \<Rightarrow> ref \<Rightarrow> bool" for h :: "'v heap" where
  atRoot: "parent (h n) = None \<Longrightarrow> chainEnds h n"
| below: "parent (h n) = Some p \<Longrightarrow> chainEnds h p \<Longrightarrow> chainEnds h n"

text \<open>A store for examples: node 0 is a root, node 1 its child \<open>a\<close>, node 2 the child \<open>b\<close> of node 1.\<close>

definition blank :: "nat Node" where
  "blank = \<lparr> storedValue = 0, parent = None, subpath = [], childNodes = Map.empty,
             nodeIsAlive = True, isProtectionEnabled = True, isRunningAction = False,
             identifierCache = None,
             patchSubscribers = [], snapshotSubscribers = [], actionSubscribers = [],
             disposers = [] \<rparr>"

definition sample :: "nat heap" where
  "sample = (\<lambda>r. blank)
     (0 := blank \<lparr> storedValue := 100, childNodes := [''a'' \<mapsto> 1],
                   identifierCache := Some [(7, ''42'') \<mapsto> 2],
                   snapshotSubscribers := [5] \<rparr>,
      1 := blank \<lparr> storedValue := 101, parent := Some 0, subpath := ''a'',
                   childNodes := [''b'' \<mapsto> 2] \<rparr>,
      2 := blank \<lparr> storedValue := 102, parent := Some 1, subpath := ''b'' \<rparr>)"

subsection \<open>Getters of \<^verbatim>\<open>Node\<close>\<close>

text \<open>
  Modelled from the spec: the getter \<^verbatim>\<open>isRoot\<close> of \<^verbatim>\<open>Node\<close> is not part of the source at
  hand; the data model has \<open>isRoot\<close> true iff \<open>parent\<close> is none.
\<close>

definition nodeIsRoot :: "'v Node \<Rightarrow> bool" where
  "nodeIsRoot node = (parent node = None)"

text \<open>
  Modelled from the spec: the getter \<^verbatim>\<open>value\<close> of \<^verbatim>\<open>Node\<close> is not part of the source at
  hand; the data model gives a node one value, \<open>storedValue\<close>, the live value it wraps.
\<close>

definition nodeValue :: "'v Node \<Rightarrow> 'v" where
  "nodeValue node = storedValue node"

text \<open>
  Modelled from the spec: the getter \<^verbatim>\<open>root\<close> of \<^verbatim>\<open>Node\<close> is not part of the source at
  hand; it walks parent links until none remains. \<open>None\<close> is a walk that never ends.
\<close>

partial_function (option) root :: "'v heap \<Rightarrow> ref \<Rightarrow> ref option" where
  "root h r = (case parent (h r) of None \<Rightarrow> Some r | Some p \<Rightarrow> root h p)"

declare root.simps [code]

subsection \<open>Protection, liveness, root test\<close>

definition isRoot :: "'v heap \<Rightarrow> ref \<Rightarrow> bool" where
  "isRoot h target = nodeIsRoot (getStateTreeNode h target)"

definition isAlive :: "'v heap \<Rightarrow> ref \<Rightarrow> bool" where
  "isAlive h thing = nodeIsAlive (getStateTreeNode h thing)"

text \<open>
  \<^verbatim>\<open>protect\<close> and \<^verbatim>\<open>unprotect\<close> return the outcome together with the store they leave
  behind; a call that fails has not reached its assignment.
\<close>

definition protect :: "'v heap \<Rightarrow> ref \<Rightarrow> (error + unit) \<times> 'v heap" where
  "protect h target =
     (let node = getStateTreeNode h target in
      if \<not> nodeIsRoot node then (Inl ProtectNonRoot, h)
      else (Inr (), h(target := node\<lparr>isProtectionEnabled := True\<rparr>)))"

definition unprotect :: "'v heap \<Rightarrow> ref \<Rightarrow> (error + unit) \<times> 'v heap" where
  "unprotect h target =
     (let node = getStateTreeNode h target in
      if \<not> nodeIsRoot node then (Inl UnprotectNonRoot, h)
      else (Inr (), h(target := node\<lparr>isProtectionEnabled := False\<rparr>)))"

text \<open>
  Modelled from the spec: the getter \<^verbatim>\<open>isProtected\<close> of \<^verbatim>\<open>Node\<close> is not part of the source
  at hand; the protection flag is authoritative at the root only, and a query on another
  node is delegated to the root.
\<close>

definition nodeIsProtected :: "'v heap \<Rightarrow> ref \<Rightarrow> bool option" where
  "nodeIsProtected h n = map_option (\<lambda>r. isProtectionEnabled (h r)) (root h n)"

definition isProtected :: "'v heap \<Rightarrow> ref \<Rightarrow> bool option" where
  "isProtected h target = nodeIsProtected h target"

text \<open>
  Modelled from the spec: the protection check of a mutation is not part of the source at
  hand. A
  direct mutation of a value of the tree checks the protection flag of the root; when
  the flag is set and the mutation does not occur inside an active action-call scope,
  it fails with \<open>ProtectedTreeError\<close>. The root is found by the walk \<open>root\<close>, so \<open>None\<close>
  is a check that does not return.
\<close>

definition assertWritable :: "'v heap \<Rightarrow> ref \<Rightarrow> (error + unit) option" where
  "assertWritable h n =
     (case root h n of
        None \<Rightarrow> None
      | Some r \<Rightarrow>
          if isProtectionEnabled (h r) \<and> \<not> isRunningAction (h r)
          then Some (Inl ProtectedTreeError)
          else Some (Inr ()))"

subsection \<open>Death and detachment\<close>

text \<open>
  The specification lets operations on a dead node fail, and lets a mutation of a
  protected tree outside an action fail. Here the methods of \<^verbatim>\<open>Node\<close> that take a child
  out of the value of its parent (\<^verbatim>\<open>detach\<close>, \<^verbatim>\<open>removeChild\<close>) fail with \<open>DeadNodeError\<close> on
  a dead node and pass the check \<open>assertWritable\<close>; \<^verbatim>\<open>applyPatches\<close> fails on a dead node
  and is an atomic unit of its own. The getters, the resolution of a path and the
  subscription of a listener follow their own contracts, and the functions of the source
  are as the source has them.
\<close>

text \<open>
  \<open>inSubtree h n m\<close>: the node \<open>m\<close> is \<open>n\<close> or a descendant of \<open>n\<close>, that is, \<open>n\<close> lies on
  the parent chain of \<open>m\<close>.
\<close>

inductive inSubtree :: "'v heap \<Rightarrow> ref \<Rightarrow> ref \<Rightarrow> bool" for h :: "'v heap" and n :: ref where
  self: "inSubtree h n n"
| child: "parent (h m) = Some p \<Longrightarrow> inSubtree h n p \<Longrightarrow> inSubtree h n m"

code_pred inSubtree .

definition killed :: "'v Node \<Rightarrow> 'v Node" where
  "killed node = node\<lparr> nodeIsAlive := False, patchSubscribers := [], snapshotSubscribers := [],
                       actionSubscribers := [], disposers := [] \<rparr>"

text \<open>
  Modelled from the spec: the method \<^verbatim>\<open>die\<close> of \<^verbatim>\<open>Node\<close> is not part of the source at
  hand. It marks the node and every descendant as not alive, runs the registered
  disposers and clears all listener registries. The disposers are callbacks of the
  application; the store keeps that their registry is emptied. The order in which the
  nodes of the subtree die (children first) is not visible in the store that results.
  An entry of an identifier cache that names a dead node stays in the map and is never
  returned, since the lookup \<open>cacheResolve\<close> below returns live nodes only.
\<close>

definition die :: "'v heap \<Rightarrow> ref \<Rightarrow> 'v heap" where
  "die h n = (\<lambda>m. if inSubtree h n m then killed (h m) else h m)"

text \<open>
  Modelled from the spec: the method \<^verbatim>\<open>removeChild\<close> of \<^verbatim>\<open>Node\<close> is not part of the source
  at hand. It removes the named child, then calls \<^verbatim>\<open>die()\<close> on it; where no child has the
  name, nothing is removed. As a mutation of the value of the node it fails on a dead
  node, and on a protected tree outside an action.
\<close>

definition removeChild ::
    "'v heap \<Rightarrow> ref \<Rightarrow> string \<Rightarrow> ((error + unit) \<times> 'v heap) option" where
  "removeChild h p sub =
     (if \<not> nodeIsAlive (h p) then Some (Inl DeadNodeError, h)
      else case assertWritable h p of
             None \<Rightarrow> None
           | Some (Inl e) \<Rightarrow> Some (Inl e, h)
           | Some (Inr u) \<Rightarrow>
               (case childNodes (h p) sub of
                  None \<Rightarrow> Some (Inr (), h)
                | Some c \<Rightarrow>
                    Some (Inr (), die (h(p := (h p)\<lparr>childNodes :=
                                          (childNodes (h p))(sub := None)\<rparr>)) c)))"

text \<open>
  Modelled from the spec: the method \<^verbatim>\<open>detach\<close> of \<^verbatim>\<open>Node\<close> is not part of the source at
  hand. It removes this node from its parent's children, clears \<open>parent\<close> and so makes the
  node a new root, which stays alive; the entries of the identifier cache of the old root
  (if it has one) that belong to the node, that is to a node of its subtree, move into a
  cache of the node's own, so that each cache holds the nodes of its tree. It fails on a
  dead node; a root has nothing to detach from; taking the node out of the value of its
  parent is a mutation of the tree, which fails on a protected tree outside an action.
  The old root is found by the walk \<open>root\<close>, so \<open>None\<close> is a call that does not return.
\<close>

definition movesWith :: "'v heap \<Rightarrow> ref \<Rightarrow> ref option \<Rightarrow> bool" where
  "movesWith h n entry = (case entry of None \<Rightarrow> False | Some m \<Rightarrow> inSubtree h n m)"

definition nodeDetach :: "'v heap \<Rightarrow> ref \<Rightarrow> ((error + unit) \<times> 'v heap) option" where
  "nodeDetach h n =
     (if \<not> nodeIsAlive (h n) then Some (Inl DeadNodeError, h)
      else case parent (h n) of
             None \<Rightarrow> Some (Inr (), h)
           | Some p \<Rightarrow>
               (case assertWritable h n of
                  None \<Rightarrow> None
                | Some (Inl e) \<Rightarrow> Some (Inl e, h)
                | Some (Inr u) \<Rightarrow>
               (case root h n of
                  None \<Rightarrow> None
                | Some r \<Rightarrow>
                    (let own = (case identifierCache (h r) of
                                  None \<Rightarrow> Map.empty
                                | Some c \<Rightarrow> (\<lambda>k. if movesWith h n (c k) then c k else None));
                         h1 = h(p := (h p)\<lparr>childNodes :=
                                 (\<lambda>k. if childNodes (h p) k = Some n then None else childNodes (h p) k)\<rparr>);
                         h2 = h1(r := (h1 r)\<lparr>identifierCache :=
                                 map_option (\<lambda>c k. if movesWith h n (c k) then None else c k)
                                   (identifierCache (h1 r))\<rparr>);
                         h3 = h2(n := (h2 n)\<lparr>parent := None, identifierCache := Some own\<rparr>)
                     in Some (Inr (), h3)))))"

definition detach :: "'v heap \<Rightarrow> ref \<Rightarrow> ((error + ref) \<times> 'v heap) option" where
  "detach h thing =
     (case nodeDetach h thing of
        None \<Rightarrow> None
      | Some (Inl e, h') \<Rightarrow> Some (Inl e, h')
      | Some (Inr u, h') \<Rightarrow> Some (Inr thing, h'))"

text \<open>
  \<^verbatim>\<open>
  if (node.isRoot) node.die()
  else node.parent!.removeChild(node.subpath)
  \<close>
  A node that is not a root has a parent, so the branch on \<open>isRoot\<close> is the case
  distinction on the parent field.
\<close>

definition destroy :: "'v heap \<Rightarrow> ref \<Rightarrow> ((error + unit) \<times> 'v heap) option" where
  "destroy h thing =
     (let node = getStateTreeNode h thing in
      case parent node of
        None \<Rightarrow> Some (Inr (), die h thing)
      | Some p \<Rightarrow> removeChild h p (subpath node))"

text \<open>
  The example nodes after \<^verbatim>\<open>unprotect\<close> on the root, and the example nodes while an action
  of the tree runs.
\<close>

definition sampleUnprotected :: "nat heap" where
  "sampleUnprotected = snd (unprotect sample 0)"

definition sampleInAction :: "nat heap" where
  "sampleInAction = sample(0 := (sample 0)\<lparr>isRunningAction := True\<rparr>)"

subsection \<open>Path resolution\<close>

text \<open>
  Modelled from the spec: the path codec (\<^verbatim>\<open>splitJsonPath\<close>) is not part of the source at
  hand. Segments are separated by \<open>/\<close>; inside a segment \<open>~1\<close> stands for \<open>/\<close> and \<open>~0\<close>
  for \<open>~\<close>. The empty string has no segments.
\<close>

fun splitSlash :: "string \<Rightarrow> string list" where
  "splitSlash [] = [[]]"
| "splitSlash (c # cs) =
     (if c = CHR ''/'' then [] # splitSlash cs
      else (case splitSlash cs of [] \<Rightarrow> [[c]] | s # ss \<Rightarrow> (c # s) # ss))"

fun unescapeJsonPath :: "string \<Rightarrow> string" where
  "unescapeJsonPath (c # d # cs) =
     (if c = CHR ''~'' \<and> d = CHR ''1'' then CHR ''/'' # unescapeJsonPath cs
      else if c = CHR ''~'' \<and> d = CHR ''0'' then CHR ''~'' # unescapeJsonPath cs
      else c # unescapeJsonPath (d # cs))"
| "unescapeJsonPath cs = cs"

definition segments :: "string \<Rightarrow> string list" where
  "segments s = (if s = [] then [] else splitSlash s)"

text \<open>
  Modelled from the spec: the method \<^verbatim>\<open>resolve(path, throwOnFail)\<close> of \<^verbatim>\<open>Node\<close> is not part
  of the source at hand. The path is a sequence of escaped segments; \<open>..\<close> goes to the
  parent, \<open>.\<close> stays, any other segment goes to the child of that name; a leading \<open>/\<close>
  starts the walk at the root. When a segment cannot be found the method fails with
  \<open>ResolutionError\<close> if \<open>throwOnFail\<close> is true and returns \<^verbatim>\<open>undefined\<close> otherwise.
\<close>

fun resolveParts :: "'v heap \<Rightarrow> ref \<Rightarrow> string list \<Rightarrow> ref option" where
  "resolveParts h cur [] = Some cur"
| "resolveParts h cur (seg # segs) =
     (if seg = ''..'' then
        (case parent (h cur) of None \<Rightarrow> None | Some p \<Rightarrow> resolveParts h p segs)
      else if seg = ''.'' then resolveParts h cur segs
      else (case childNodes (h cur) (unescapeJsonPath seg) of
              None \<Rightarrow> None
            | Some c \<Rightarrow> resolveParts h c segs))"

definition resolveStart :: "'v heap \<Rightarrow> ref \<Rightarrow> string \<Rightarrow> (ref \<times> string list) option" where
  "resolveStart h n path =
     (case path of
        [] \<Rightarrow> Some (n, [])
      | c # rest \<Rightarrow>
          if c = CHR ''/'' then map_option (\<lambda>r. (r, segments rest)) (root h n)
          else Some (n, segments path))"

definition resolve :: "'v heap \<Rightarrow> ref \<Rightarrow> string \<Rightarrow> bool \<Rightarrow> (error + ref option) option" where
  "resolve h n path throwOnFail =
     (case resolveStart h n path of
        None \<Rightarrow> None
      | Some (start, segs) \<Rightarrow>
          (case resolveParts h start segs of
             None \<Rightarrow> if throwOnFail then Some (Inl ResolutionError) else Some (Inr None)
           | Some m \<Rightarrow> Some (Inr (Some m))))"

text \<open>
  \<^verbatim>\<open>resolvePath\<close> and \<^verbatim>\<open>tryResolve\<close>: \<open>Inr None\<close> is the result \<^verbatim>\<open>undefined\<close>.
\<close>

definition resolvePath :: "'v heap \<Rightarrow> ref \<Rightarrow> string \<Rightarrow> (error + 'v option) option" where
  "resolvePath h target path =
     (case resolve h target path True of
        None \<Rightarrow> None
      | Some (Inl e) \<Rightarrow> Some (Inl e)
      | Some (Inr node) \<Rightarrow>
          Some (Inr (case node of None \<Rightarrow> None | Some m \<Rightarrow> Some (nodeValue (h m)))))"

definition tryResolve :: "'v heap \<Rightarrow> ref \<Rightarrow> string \<Rightarrow> (error + 'v option) option" where
  "tryResolve h target path =
     (case resolve h target path False of
        None \<Rightarrow> None
      | Some (Inl e) \<Rightarrow> Some (Inl e)
      | Some (Inr node) \<Rightarrow>
          (if node = None then Some (Inr None)
           else Some (Inr (case node of None \<Rightarrow> None | Some m \<Rightarrow> Some (nodeValue (h m))))))"

subsection \<open>Identifier lookup\<close>









section \<open>Listeners, atomic units, recorders\<close>

text \<open>
  The store of the whole system: the nodes, the arrays of the recorders, the depth of
  nested atomic units, the nodes whose new snapshot has not been reported yet, and a log
  of what happened, in order.
\<close>

datatype 'v event =
    BatchStart
  | BatchEnd
  | PatchApplied ref "'v IJsonPatch"
  | ActionApplied ref "'v ISerializedActionCall"
  | PatchListenerCalled patchListener "'v IJsonPatch"
  | ActionListenerCalled actionListener "'v ISerializedActionCall"
  | SnapshotListenerCalled ref nat

fun isListenerCall :: "'v event \<Rightarrow> bool" where
  "isListenerCall (PatchListenerCalled l p) = True"
| "isListenerCall (ActionListenerCalled l c) = True"
| "isListenerCall (SnapshotListenerCalled n l) = True"
| "isListenerCall e = False"

fun isSnapshotCall :: "'v event \<Rightarrow> bool" where
  "isSnapshotCall (SnapshotListenerCalled n l) = True"
| "isSnapshotCall e = False"

fun isApplied :: "'v event \<Rightarrow> bool" where
  "isApplied (PatchApplied n p) = True"
| "isApplied (ActionApplied n c) = True"
| "isApplied e = False"

record 'v store =
  nodes :: "'v heap"
  patchRecorders :: "ref \<Rightarrow> 'v IJsonPatch list"
  actionRecorders :: "ref \<Rightarrow> 'v ISerializedActionCall list"
  nextRecorder :: ref
  inBatch :: nat
  changed :: "ref list"
  events :: "'v event list"

text \<open>
  What one patch or one action call does to the stored values is decided by the type
  layer and by the bodies of the actions, which are not part of the core. They are a
  parameter: given the nodes, the target and the item, the parameter fails or tells the
  new nodes, the action calls and patches that the feeds of which nodes emit, in order,
  and the nodes whose snapshot changed.
\<close>

record 'v effect =
  newNodes :: "'v heap"
  actionsEmitted :: "(ref \<times> 'v ISerializedActionCall) list"
  patchesEmitted :: "(ref \<times> 'v IJsonPatch) list"
  touched :: "ref list"

type_synonym 'v patchLayer = "'v heap \<Rightarrow> ref \<Rightarrow> 'v IJsonPatch \<Rightarrow> 'v effect option"

type_synonym 'v actionLayer = "'v heap \<Rightarrow> ref \<Rightarrow> 'v ISerializedActionCall \<Rightarrow> error + 'v effect"

text \<open>
  Modelled from the spec: \<^verbatim>\<open>asArray\<close> is not part of the source at hand. The argument is
  one item or an array of items.
\<close>

datatype 'a oneOrMany = One 'a | Many "'a list"

fun asArray :: "'a oneOrMany \<Rightarrow> 'a list" where
  "asArray (One x) = [x]"
| "asArray (Many xs) = xs"

subsection \<open>Change feeds\<close>

definition logEvent :: "'v event \<Rightarrow> 'v store \<Rightarrow> 'v store" where
  "logEvent e s = s\<lparr>events := events s @ [e]\<rparr>"

definition callPatchListener :: "'v IJsonPatch \<Rightarrow> patchListener \<Rightarrow> 'v store \<Rightarrow> 'v store" where
  "callPatchListener patch l s =
     (let s1 = logEvent (PatchListenerCalled l patch) s in
      case l of
        PushPatch r \<Rightarrow> s1\<lparr>patchRecorders := (patchRecorders s1)(r := patchRecorders s1 r @ [patch])\<rparr>
      | PatchCallback k \<Rightarrow> s1)"

definition callActionListener ::
    "'v ISerializedActionCall \<Rightarrow> actionListener \<Rightarrow> 'v store \<Rightarrow> 'v store" where
  "callActionListener call l s =
     (let s1 = logEvent (ActionListenerCalled l call) s in
      case l of
        PushAction r \<Rightarrow> s1\<lparr>actionRecorders := (actionRecorders s1)(r := actionRecorders s1 r @ [call])\<rparr>
      | ActionCallback k \<Rightarrow> s1)"

text \<open>
  Modelled from the spec: the emission of a patch is not part of the source at hand. A
  patch listener is invoked once per change, synchronously at the point of mutation; the
  listeners of a node are an ordered list. \<open>emitPatch n patch\<close> is the feed of node \<open>n\<close>
  emitting \<open>patch\<close>; \<open>emitAction\<close> is the same for the feed of serialized action calls.
\<close>

definition emitPatch :: "ref \<Rightarrow> 'v IJsonPatch \<Rightarrow> 'v store \<Rightarrow> 'v store" where
  "emitPatch n patch s = fold (callPatchListener patch) (patchSubscribers (nodes s n)) s"

definition emitAction :: "ref \<Rightarrow> 'v ISerializedActionCall \<Rightarrow> 'v store \<Rightarrow> 'v store" where
  "emitAction n call s = fold (callActionListener call) (actionSubscribers (nodes s n)) s"

text \<open>
  Modelled from the spec: the methods \<^verbatim>\<open>onPatch\<close> of \<^verbatim>\<open>Node\<close> and \<^verbatim>\<open>onAction\<close> of the action
  module are not part of the source at hand. Each subscribes a listener to the feed of
  the node and returns a disposer that unsubscribes it.
\<close>

datatype disposer = UnsubscribePatch ref patchListener | UnsubscribeAction ref actionListener

definition nodeOnPatch :: "ref \<Rightarrow> patchListener \<Rightarrow> 'v store \<Rightarrow> disposer \<times> 'v store" where
  "nodeOnPatch n l s =
     (UnsubscribePatch n l,
      s\<lparr>nodes := (nodes s)(n := (nodes s n)\<lparr>patchSubscribers := patchSubscribers (nodes s n) @ [l]\<rparr>)\<rparr>)"

definition onPatch :: "ref \<Rightarrow> patchListener \<Rightarrow> 'v store \<Rightarrow> disposer \<times> 'v store" where
  "onPatch target callback s = nodeOnPatch target callback s"

definition onAction :: "ref \<Rightarrow> actionListener \<Rightarrow> 'v store \<Rightarrow> disposer \<times> 'v store" where
  "onAction target l s =
     (UnsubscribeAction target l,
      s\<lparr>nodes := (nodes s)(target :=
           (nodes s target)\<lparr>actionSubscribers := actionSubscribers (nodes s target) @ [l]\<rparr>)\<rparr>)"

fun runDisposer :: "disposer \<Rightarrow> 'v store \<Rightarrow> 'v store" where
  "runDisposer (UnsubscribePatch n l) s =
     s\<lparr>nodes := (nodes s)(n := (nodes s n)\<lparr>patchSubscribers := remove1 l (patchSubscribers (nodes s n))\<rparr>)\<rparr>"
| "runDisposer (UnsubscribeAction n l) s =
     s\<lparr>nodes := (nodes s)(n := (nodes s n)\<lparr>actionSubscribers := remove1 l (actionSubscribers (nodes s n))\<rparr>)\<rparr>"

subsection \<open>Atomic units\<close>

text \<open>
  Modelled from the spec: \<^verbatim>\<open>runInAction\<close> belongs to the reactivity engine. Atomic units
  nest; snapshot listeners are deferred, and only the end of the outermost unit flushes
  them, once for each node that changed. The unit is left also when its body fails.
\<close>

definition callSnapshotListeners :: "ref \<Rightarrow> 'v store \<Rightarrow> 'v store" where
  "callSnapshotListeners n s =
     fold (\<lambda>l. logEvent (SnapshotListenerCalled n l)) (snapshotSubscribers (nodes s n)) s"

definition flushSnapshots :: "'v store \<Rightarrow> 'v store" where
  "flushSnapshots s = (fold callSnapshotListeners (remdups (changed s)) s)\<lparr>changed := []\<rparr>"

definition startBatch :: "'v store \<Rightarrow> 'v store" where
  "startBatch s = logEvent BatchStart (s\<lparr>inBatch := inBatch s + 1\<rparr>)"

definition endBatch :: "'v store \<Rightarrow> 'v store" where
  "endBatch s =
     (let s1 = logEvent BatchEnd (s\<lparr>inBatch := inBatch s - 1\<rparr>) in
      if inBatch s1 = 0 then flushSnapshots s1 else s1)"

definition runInAction :: "('v store \<Rightarrow> 'a \<times> 'v store) \<Rightarrow> 'v store \<Rightarrow> 'a \<times> 'v store" where
  "runInAction fn s = (case fn (startBatch s) of (r, s1) \<Rightarrow> (r, endBatch s1))"

text \<open>
  \<^verbatim>\<open>forEach\<close> over an array, where a callback that throws ends the iteration.
\<close>

fun forEach :: "('x \<Rightarrow> 'v store \<Rightarrow> (error + unit) \<times> 'v store) \<Rightarrow> 'x list \<Rightarrow> 'v store
    \<Rightarrow> (error + unit) \<times> 'v store" where
  "forEach f [] s = (Inr (), s)"
| "forEach f (x # xs) s =
     (case f x s of
        (Inl e, s1) \<Rightarrow> (Inl e, s1)
      | (Inr u, s1) \<Rightarrow> forEach f xs s1)"

text \<open>
  The change that an effect describes enters the store: the new nodes, the changed nodes
  queued for the snapshot listeners, and the emissions delivered at once.
\<close>

definition commit :: "'v effect \<Rightarrow> 'v store \<Rightarrow> 'v store" where
  "commit eff s =
     (let s1 = s\<lparr>nodes := newNodes eff, changed := changed s @ touched eff\<rparr>;
          s2 = fold (\<lambda>(n, call). emitAction n call) (actionsEmitted eff) s1
      in fold (\<lambda>(n, patch). emitPatch n patch) (patchesEmitted eff) s2)"

subsection \<open>Applying patches and actions\<close>

text \<open>
  Modelled from the spec: the method \<^verbatim>\<open>applyPatches\<close> of \<^verbatim>\<open>Node\<close> is not part of the source
  at hand. It applies an ordered sequence of patches as one atomic unit; a patch that
  cannot be applied fails the call with \<open>PatchApplicationError\<close>, and the patches before
  it are not rolled back. As a mutation it fails on a dead node.
\<close>

definition applyOnePatch :: "'v patchLayer \<Rightarrow> ref \<Rightarrow> 'v IJsonPatch \<Rightarrow> 'v store
    \<Rightarrow> (error + unit) \<times> 'v store" where
  "applyOnePatch layer n patch s =
     (let s1 = logEvent (PatchApplied n patch) s in
      case layer (nodes s1) n patch of
        None \<Rightarrow> (Inl PatchApplicationError, s1)
      | Some eff \<Rightarrow> (Inr (), commit eff s1))"

definition applyPatches :: "'v patchLayer \<Rightarrow> ref \<Rightarrow> 'v IJsonPatch list \<Rightarrow> 'v store
    \<Rightarrow> (error + unit) \<times> 'v store" where
  "applyPatches layer n patches s =
     (if \<not> nodeIsAlive (nodes s n) then (Inl DeadNodeError, s)
      else runInAction (forEach (applyOnePatch layer n) patches) s)"

definition applyPatch :: "'v patchLayer \<Rightarrow> ref \<Rightarrow> 'v IJsonPatch oneOrMany \<Rightarrow> 'v store
    \<Rightarrow> (error + unit) \<times> 'v store" where
  "applyPatch layer target patch s = applyPatches layer target (asArray patch) s"

text \<open>
  Modelled from the spec: \<^verbatim>\<open>applyAction\<close> of the action module (\<^verbatim>\<open>baseApplyAction\<close> in the
  source) is not part of the source at hand. It invokes the action that a serialized
  call names; an action is an atomic unit of its own.
\<close>

definition baseApplyAction :: "'v actionLayer \<Rightarrow> ref \<Rightarrow> 'v ISerializedActionCall \<Rightarrow> 'v store
    \<Rightarrow> (error + unit) \<times> 'v store" where
  "baseApplyAction layer target action s =
     runInAction (\<lambda>s0.
       let s1 = logEvent (ActionApplied target action) s0 in
       case layer (nodes s1) target action of
         Inl e \<Rightarrow> (Inl e, s1)
       | Inr eff \<Rightarrow> (Inr (), commit eff s1)) s"

text \<open>
  \<^verbatim>\<open>
  runInAction(() => {
      asArray(actions).forEach(action => baseApplyAction(target, action))
  })
  \<close>
\<close>

definition applyAction :: "'v actionLayer \<Rightarrow> ref \<Rightarrow> 'v ISerializedActionCall oneOrMany \<Rightarrow> 'v store
    \<Rightarrow> (error + unit) \<times> 'v store" where
  "applyAction layer target actions s =
     runInAction (forEach (\<lambda>action. baseApplyAction layer target action) (asArray actions)) s"

text \<open>
  What a sequence of applications leaves behind, read off the type layer alone: the layer
  is asked about each element in turn, on the nodes that the element before it left; the
  first failure ends the sequence with its error and keeps the nodes reached so far.
  \<open>handedOver\<close> counts the elements that the layer was asked about, the failing one
  included. A patch that the layer cannot apply fails with \<open>PatchApplicationError\<close>.
\<close>

type_synonym ('v, 'x) layer = "'v heap \<Rightarrow> ref \<Rightarrow> 'x \<Rightarrow> error + 'v effect"

definition patchLayerResult :: "'v patchLayer \<Rightarrow> ('v, 'v IJsonPatch) layer" where
  "patchLayerResult layer h n patch =
     (case layer h n patch of None \<Rightarrow> Inl PatchApplicationError | Some eff \<Rightarrow> Inr eff)"

fun applyAll :: "('v, 'x) layer \<Rightarrow> ref \<Rightarrow> 'x list \<Rightarrow> 'v heap \<Rightarrow> (error + unit) \<times> 'v heap" where
  "applyAll layer target [] h = (Inr (), h)"
| "applyAll layer target (x # xs) h =
     (case layer h target x of
        Inl e \<Rightarrow> (Inl e, h)
      | Inr eff \<Rightarrow> applyAll layer target xs (newNodes eff))"

fun handedOver :: "('v, 'x) layer \<Rightarrow> ref \<Rightarrow> 'x list \<Rightarrow> 'v heap \<Rightarrow> nat" where
  "handedOver layer target [] h = 0"
| "handedOver layer target (x # xs) h =
     (case layer h target x of
        Inl e \<Rightarrow> 1
      | Inr eff \<Rightarrow> Suc (handedOver layer target xs (newNodes eff)))"

subsection \<open>Recorders\<close>

text \<open>
  A recorder object is its array, kept in the store under a fresh reference, and the
  disposer that \<^verbatim>\<open>stop\<close> calls. \<^verbatim>\<open>replay\<close> hands the array to \<^verbatim>\<open>applyPatch\<close> or
  \<^verbatim>\<open>applyAction\<close>.
\<close>

record recorder =
  recorderRef :: ref
  recorderDisposer :: disposer

definition recordPatches :: "ref \<Rightarrow> 'v store \<Rightarrow> recorder \<times> 'v store" where
  "recordPatches subject s =
     (let r = nextRecorder s;
          s1 = s\<lparr>patchRecorders := (patchRecorders s)(r := []), nextRecorder := Suc r\<rparr>
      in case onPatch subject (PushPatch r) s1 of
           (d, s2) \<Rightarrow> (\<lparr>recorderRef = r, recorderDisposer = d\<rparr>, s2))"

definition recordActions :: "ref \<Rightarrow> 'v store \<Rightarrow> recorder \<times> 'v store" where
  "recordActions subject s =
     (let r = nextRecorder s;
          s1 = s\<lparr>actionRecorders := (actionRecorders s)(r := []), nextRecorder := Suc r\<rparr>
      in case onAction subject (PushAction r) s1 of
           (d, s2) \<Rightarrow> (\<lparr>recorderRef = r, recorderDisposer = d\<rparr>, s2))"

definition stop :: "recorder \<Rightarrow> 'v store \<Rightarrow> 'v store" where
  "stop rec s = runDisposer (recorderDisposer rec) s"

definition replayPatches :: "'v patchLayer \<Rightarrow> recorder \<Rightarrow> ref \<Rightarrow> 'v store \<Rightarrow> (error + unit) \<times> 'v store" where
  "replayPatches layer rec target s =
     applyPatch layer target (Many (patchRecorders s (recorderRef rec))) s"

definition replayActions :: "'v actionLayer \<Rightarrow> recorder \<Rightarrow> ref \<Rightarrow> 'v store \<Rightarrow> (error + unit) \<times> 'v store" where
  "replayActions layer rec target s =
     applyAction layer target (Many (actionRecorders s (recorderRef rec))) s"

text \<open>A store over the example nodes, outside any atomic unit, with nothing recorded.\<close>

definition sampleStore :: "nat store" where
  "sampleStore = \<lparr> nodes = sample, patchRecorders = (\<lambda>r. []), actionRecorders = (\<lambda>r. []),
                    nextRecorder = 0, inBatch = 0, changed = [], events = [] \<rparr>"

text \<open>
  Reading a log: the calls of patch and action listeners; and the depth of nesting that a
  log leaves when it is read from depth \<open>d\<close>, which is \<open>None\<close> when the log closes a unit
  that it did not open.
\<close>

fun isFeedCall :: "'v event \<Rightarrow> bool" where
  "isFeedCall (PatchListenerCalled l p) = True"
| "isFeedCall (ActionListenerCalled l c) = True"
| "isFeedCall e = False"

fun nesting :: "nat \<Rightarrow> 'v event list \<Rightarrow> nat option" where
  "nesting d [] = Some d"
| "nesting d (BatchStart # es) = nesting (Suc d) es"
| "nesting d (BatchEnd # es) = (case d of 0 \<Rightarrow> None | Suc d' \<Rightarrow> nesting d' es)"
| "nesting d (e # es) = nesting d es"

text \<open>
  Example layers: a patch sets the stored value of its target and fails without a value;
  an action call adds one to the stored value of its target. Both report the change at
  the target and at node 0.
\<close>

definition samplePatchLayer :: "nat patchLayer" where
  "samplePatchLayer h n patch =
     (case patch_value patch of
        None \<Rightarrow> None
      | Some v \<Rightarrow> Some \<lparr> newNodes = h(n := (h n)\<lparr>storedValue := v\<rparr>), actionsEmitted = [],
                          patchesEmitted = [(n, patch)], touched = [n, 0] \<rparr>)"

definition sampleActionLayer :: "nat actionLayer" where
  "sampleActionLayer h n call =
     Inr \<lparr> newNodes = h(n := (h n)\<lparr>storedValue := storedValue (h n) + 1\<rparr>),
           actionsEmitted = [(n, call)], patchesEmitted = [], touched = [n, 0] \<rparr>"

definition patchA :: "nat IJsonPatch" where
  "patchA = \<lparr> patch_op = Replace, patch_path = ''/x'', patch_value = Some 7, patch_oldValue = None \<rparr>"

definition patchB :: "nat IJsonPatch" where
  "patchB = \<lparr> patch_op = Add, patch_path = ''/y'', patch_value = Some 8, patch_oldValue = None \<rparr>"

definition callA :: "nat ISerializedActionCall" where
  "callA = \<lparr> call_name = ''inc'', call_path = [], call_args = [] \<rparr>"

definition callB :: "nat ISerializedActionCall" where
  "callB = \<lparr> call_name = ''inc'', call_path = [], call_args = [1] \<rparr>"

section \<open>Parent navigation\<close>

lemma hasParent_loop_pos:
  "0 < k \<Longrightarrow> hasParent_loop h (parent (h n)) (int k) = Some (ancestorAt h n k \<noteq> None)"
proof (induction k arbitrary: n)
  case 0
  then show ?case by simp
next
  case (Suc k)
  show ?case
  proof (cases "parent (h n)")
    case None
    then show ?thesis by (subst hasParent_loop.simps) simp
  next
    case (Some p)
    show ?thesis
    proof (cases k)
      case 0
      with Some show ?thesis by (subst hasParent_loop.simps) simp
    next
      case (Suc j)
      then have "0 < k" by simp
      from Suc.IH [OF this, of p] Some Suc show ?thesis
        by (subst hasParent_loop.simps) simp
    qed
  qed
qed

lemma getParent_loop_pos:
  "0 < k \<Longrightarrow> getParent_loop h (parent (h n)) (int k) =
     Some (map_option (\<lambda>a. storedValue (h a)) (ancestorAt h n k))"
proof (induction k arbitrary: n)
  case 0
  then show ?case by simp
next
  case (Suc k)
  show ?case
  proof (cases "parent (h n)")
    case None
    then show ?thesis by (subst getParent_loop.simps) simp
  next
    case (Some p)
    show ?thesis
    proof (cases k)
      case 0
      with Some show ?thesis by (subst getParent_loop.simps) simp
    next
      case (Suc j)
      then have "0 < k" by simp
      from Suc.IH [OF this, of p] Some Suc show ?thesis
        by (subst getParent_loop.simps) simp
    qed
  qed
qed

lemma getParent_loop_nonpos:
  "chainEnds h n \<Longrightarrow> d \<le> 0 \<Longrightarrow> getParent_loop h (parent (h n)) d = Some None"
proof (induction arbitrary: d rule: chainEnds.induct)
  case (atRoot n)
  then show ?case by (subst getParent_loop.simps) simp
next
  case (below n p)
  from below.prems have "d - 1 \<le> 0" and "d - 1 \<noteq> 0" by simp_all
  with below.IH [of "d - 1"] below.hyps(1) show ?case
    by (subst getParent_loop.simps) simp
qed

lemma hasParent_loop_nonpos:
  "chainEnds h n \<Longrightarrow> d \<le> 0 \<Longrightarrow> hasParent_loop h (parent (h n)) d = Some False"
proof (induction arbitrary: d rule: chainEnds.induct)
  case (atRoot n)
  then show ?case by (subst hasParent_loop.simps) simp
next
  case (below n p)
  from below.prems have "d - 1 \<le> 0" and "d - 1 \<noteq> 0" by simp_all
  with below.IH [of "d - 1"] below.hyps(1) show ?case
    by (subst hasParent_loop.simps) simp
qed

lemma chainEnds_sample_2: "chainEnds sample 2"
proof -
  have "chainEnds sample 0" by (rule chainEnds.atRoot) (simp add: sample_def blank_def)
  then have "chainEnds sample 1" by (rule chainEnds.below [rotated]) (simp add: sample_def blank_def)
  then show ?thesis by (rule chainEnds.below [rotated]) (simp add: sample_def blank_def)
qed

lemma root_of_chainEnds: "chainEnds h n \<Longrightarrow> \<exists>r. root h n = Some r \<and> parent (h r) = None"
proof (induction rule: chainEnds.induct)
  case (atRoot n)
  then show ?case by (subst root.simps) simp
next
  case (below n p)
  then show ?case by (subst root.simps) simp
qed

text \<open>
  C10. For a depth of at least one, \<^verbatim>\<open>hasParent(target, depth)\<close> returns \<^verbatim>\<open>true\<close> exactly
  when \<^verbatim>\<open>getParent(target, depth)\<close> returns a value; both calls return in every store;
  and the value that \<^verbatim>\<open>getParent\<close> returns is the stored value of the node \<open>depth\<close> steps up
  the parent chain of the target.
\<close>

theorem hasParent_iff_getParent:
  assumes "1 \<le> depth"
  shows "(hasParent h target (Some depth) = Some (Inr True)) =
           (\<exists>v. getParent h target (Some depth) = Some (Inr v))
       \<and> (\<exists>b. hasParent h target (Some depth) = Some (Inr b))
       \<and> (\<exists>r. getParent h target (Some depth) = Some r)
       \<and> (\<forall>v. getParent h target (Some depth) = Some (Inr v) \<longrightarrow>
             (\<exists>a. ancestorAt h target (nat depth) = Some a \<and> v = storedValue (h a)))"
proof -
  from assms have k: "0 < nat depth" and d: "int (nat depth) = depth" by simp_all
  from assms have nn: "\<not> depth < 0" by simp
  have hp: "hasParent h target (Some depth) = Some (Inr (ancestorAt h target (nat depth) \<noteq> None))"
    using hasParent_loop_pos [OF k, of h target] nn
    by (simp add: hasParent_def getStateTreeNode_def d)
  have gp: "getParent h target (Some depth) =
      Some (case ancestorAt h target (nat depth) of
              None \<Rightarrow> Inl (ParentNotFound target depth)
            | Some a \<Rightarrow> Inr (storedValue (h a)))"
    using getParent_loop_pos [OF k, of h target] nn
    by (simp add: getParent_def getStateTreeNode_def d split: option.splits)
  show ?thesis
    unfolding hp gp by (cases "ancestorAt h target (nat depth)") auto
qed

theorem hasParent_iff_getParent_witness:
  "hasParent sample 2 (Some 2) = Some (Inr True) \<and> getParent sample 2 (Some 2) = Some (Inr 100)"
proof -
  have a: "ancestorAt sample 2 (nat 2) = Some 0"
    by (simp add: sample_def blank_def numeral_2_eq_2)
  have g: "getParent sample 2 (Some 2) = Some (Inr 100)"
    by (simp add: getParent_def getStateTreeNode_def getParent_loop.simps sample_def blank_def)
  from hasParent_iff_getParent [of 2 sample 2] g show ?thesis by simp
qed

text \<open>
  C1. In a tree, \<^verbatim>\<open>getParent(N, 0)\<close> passes the guard \<^verbatim>\<open>depth < 0\<close>, walks the whole parent
  chain without its counter reaching zero, and fails with the message
  \<^verbatim>\<open>Failed to find the parent of N at depth 0\<close>. It returns no value, and the error is not
  the one whose message says that the depth should be at least 1; that error is raised
  for a negative depth only. \<^verbatim>\<open>hasParent(N, 0)\<close> passes the same guard and returns
  \<^verbatim>\<open>false\<close>.
\<close>

theorem getParent_zero_not_found:
  assumes "chainEnds h n"
  shows "getParent h n (Some 0) = Some (Inl (ParentNotFound n 0))
       \<and> \<not> reportsDepthAtLeastOne (ParentNotFound n 0)
       \<and> hasParent h n (Some 0) = Some (Inr False)
       \<and> (d < 0 \<longrightarrow> getParent h n (Some d) = Some (Inl (InvalidDepth d))
                  \<and> reportsDepthAtLeastOne (InvalidDepth d))"
  using getParent_loop_nonpos [OF assms, of 0] hasParent_loop_nonpos [OF assms, of 0]
  by (simp add: getParent_def hasParent_def getStateTreeNode_def)

theorem getParent_zero_not_found_witness:
  "chainEnds sample 2 \<and> getParent sample 2 (Some 0) = Some (Inl (ParentNotFound 2 0))
   \<and> hasParent sample 2 (Some 0) = Some (Inr False)
   \<and> getParent sample 2 (Some (- 1)) = Some (Inl (InvalidDepth (- 1)))"
  using getParent_zero_not_found [OF chainEnds_sample_2, of "- 1"] chainEnds_sample_2 by simp

section \<open>Protection\<close>

text \<open>
  C2. On a node that is not a root, \<^verbatim>\<open>protect\<close> and \<^verbatim>\<open>unprotect\<close> fail with their
  invalid-argument errors and leave the store as it was. On a root, \<^verbatim>\<open>protect\<close> sets the
  flag \<open>isProtectionEnabled\<close> of the node and \<^verbatim>\<open>unprotect\<close> clears it; nothing else
  changes.
\<close>

theorem protect_unprotect_root_only:
  "(\<not> isRoot h target \<longrightarrow>
       protect h target = (Inl ProtectNonRoot, h) \<and> isInvalidArgumentError ProtectNonRoot
     \<and> unprotect h target = (Inl UnprotectNonRoot, h) \<and> isInvalidArgumentError UnprotectNonRoot)
 \<and> (isRoot h target \<longrightarrow>
       protect h target = (Inr (), h(target := (h target)\<lparr>isProtectionEnabled := True\<rparr>))
     \<and> isProtectionEnabled (snd (protect h target) target) = True
     \<and> unprotect h target = (Inr (), h(target := (h target)\<lparr>isProtectionEnabled := False\<rparr>))
     \<and> isProtectionEnabled (snd (unprotect h target) target) = False)"
  by (simp add: protect_def unprotect_def isRoot_def getStateTreeNode_def Let_def)

theorem protect_unprotect_root_only_witness:
  "\<not> isRoot sample 1 \<and> protect sample 1 = (Inl ProtectNonRoot, sample)
     \<and> unprotect sample 1 = (Inl UnprotectNonRoot, sample)
   \<and> isRoot sample 0 \<and> fst (protect sample 0) = Inr ()
     \<and> isProtectionEnabled (snd (unprotect sample 0) 0) = False"
proof -
  have a: "\<not> isRoot sample 1"
    by (simp add: isRoot_def nodeIsRoot_def getStateTreeNode_def sample_def blank_def)
  have b: "isRoot sample 0"
    by (simp add: isRoot_def nodeIsRoot_def getStateTreeNode_def sample_def blank_def)
  from protect_unprotect_root_only [of sample 1] protect_unprotect_root_only [of sample 0] a b
  show ?thesis by simp
qed

section \<open>Death and detachment\<close>

lemma die_self: "nodeIsAlive (die h n n) = False"
  by (simp add: die_def killed_def inSubtree.self)

lemma sample_fields:
  "parent (sample 2) = Some (Suc 0)" "parent (sample (Suc 0)) = Some 0" "parent (sample 0) = None"
  "subpath (sample 2) = ''b''" "nodeIsAlive (sample 2)" "nodeIsAlive (sample (Suc 0))"
  "childNodes (sample (Suc 0)) ''b'' = Some 2" "storedValue (sample (Suc 0)) = 101"
  "isProtectionEnabled (sample 0)" "\<not> isRunningAction (sample 0)"
  by (simp_all add: sample_def blank_def)

lemma sample_root: "root sample 2 = Some 0" "root sample (Suc 0) = Some 0"
  by (simp_all add: root.simps sample_fields)

lemma sampleUnprotected_nodes:
  "sampleUnprotected = sample(0 := (sample 0)\<lparr>isProtectionEnabled := False\<rparr>)"
  by (simp add: sampleUnprotected_def unprotect_def getStateTreeNode_def nodeIsRoot_def Let_def
      sample_fields)

lemma sampleUnprotected_fields:
  "parent (sampleUnprotected 2) = Some (Suc 0)" "parent (sampleUnprotected (Suc 0)) = Some 0"
  "parent (sampleUnprotected 0) = None"
  "subpath (sampleUnprotected 2) = ''b''" "nodeIsAlive (sampleUnprotected 2)"
  "nodeIsAlive (sampleUnprotected (Suc 0))" "childNodes (sampleUnprotected (Suc 0)) ''b'' = Some 2"
  "\<not> isProtectionEnabled (sampleUnprotected 0)"
  by (simp_all add: sampleUnprotected_nodes sample_fields)

lemma sampleUnprotected_root: "root sampleUnprotected 2 = Some 0" "root sampleUnprotected (Suc 0) = Some 0"
  by (simp_all add: root.simps sampleUnprotected_fields)

lemma sampleInAction_fields:
  "parent (sampleInAction 2) = Some (Suc 0)" "parent (sampleInAction (Suc 0)) = Some 0"
  "parent (sampleInAction 0) = None"
  "subpath (sampleInAction 2) = ''b''" "nodeIsAlive (sampleInAction 2)"
  "nodeIsAlive (sampleInAction (Suc 0))" "childNodes (sampleInAction (Suc 0)) ''b'' = Some 2"
  "isProtectionEnabled (sampleInAction 0)" "isRunningAction (sampleInAction 0)"
  by (simp_all add: sampleInAction_def sample_fields)

lemma sampleInAction_root: "root sampleInAction 2 = Some 0" "root sampleInAction (Suc 0) = Some 0"
  by (simp_all add: root.simps sampleInAction_fields)

text \<open>
  C6, as the claim has it, fails on a protected tree: outside an action, \<^verbatim>\<open>destroy\<close> on a
  node with a parent is stopped by the protection of the tree, and the node stays alive.
\<close>

theorem destroy_protected_counterexample:
  "destroy sample 2 = Some (Inl ProtectedTreeError, sample) \<and> isAlive sample 2
   \<and> \<not> isRoot sample 2"
  by (simp add: destroy_def removeChild_def assertWritable_def sample_root sample_fields
      getStateTreeNode_def isAlive_def isRoot_def nodeIsRoot_def)

text \<open>
  C6, amended. \<^verbatim>\<open>destroy(thing)\<close> on a root is \<^verbatim>\<open>die()\<close> on its node; on a node with a parent
  it is \<^verbatim>\<open>removeChild\<close> on the parent with the subpath of the node. Where the parent is
  alive and the tree is unprotected or runs an action, this removes the child of that
  name and kills it; where the parent is alive and the tree is protected and runs no
  action, it fails with \<open>ProtectedTreeError\<close> and changes nothing. In a tree, where the
  parent knows the node under its subpath and a live node has a live parent, the node is
  not alive after \<^verbatim>\<open>destroy\<close> on a root, and after \<^verbatim>\<open>destroy\<close> on a node of a tree that is
  unprotected or runs an action.
\<close>

theorem destroy_ends_life:
  assumes named: "\<forall>p. parent (h thing) = Some p \<longrightarrow> childNodes (h p) (subpath (h thing)) = Some thing"
      and live: "\<forall>p. parent (h thing) = Some p \<longrightarrow> nodeIsAlive (h thing) \<longrightarrow> nodeIsAlive (h p)"
  shows "(isRoot h thing \<longrightarrow> destroy h thing = Some (Inr (), die h thing))
       \<and> (\<forall>p. parent (h thing) = Some p \<longrightarrow>
             destroy h thing = removeChild h p (subpath (h thing)))
       \<and> (\<forall>p r. parent (h thing) = Some p \<and> nodeIsAlive (h p) \<and> root h p = Some r
                 \<and> (\<not> isProtectionEnabled (h r) \<or> isRunningAction (h r)) \<longrightarrow>
             destroy h thing =
               Some (Inr (), die (h(p := (h p)\<lparr>childNodes :=
                                  (childNodes (h p))(subpath (h thing) := None)\<rparr>)) thing))
       \<and> (\<forall>p r. parent (h thing) = Some p \<and> nodeIsAlive (h p) \<and> root h p = Some r
                 \<and> isProtectionEnabled (h r) \<and> \<not> isRunningAction (h r) \<longrightarrow>
             destroy h thing = Some (Inl ProtectedTreeError, h))
       \<and> (isRoot h thing
            \<or> (\<exists>p r. parent (h thing) = Some p \<and> root h p = Some r
                  \<and> (\<not> isProtectionEnabled (h r) \<or> isRunningAction (h r))) \<longrightarrow>
             (\<exists>res h'. destroy h thing = Some (res, h') \<and> \<not> isAlive h' thing))"
proof (cases "parent (h thing)")
  case None
  then show ?thesis
    by (simp add: destroy_def isRoot_def nodeIsRoot_def getStateTreeNode_def isAlive_def die_self)
next
  case (Some p)
  with named have c: "childNodes (h p) (subpath (h thing)) = Some thing" by simp
  have d: "destroy h thing = removeChild h p (subpath (h thing))"
    using Some by (simp add: destroy_def getStateTreeNode_def)
  show ?thesis
  proof (cases "nodeIsAlive (h p)")
    case True
    have w: "root h p = Some r \<Longrightarrow> \<not> isProtectionEnabled (h r) \<or> isRunningAction (h r) \<Longrightarrow>
        removeChild h p (subpath (h thing)) =
          Some (Inr (), die (h(p := (h p)\<lparr>childNodes :=
                                  (childNodes (h p))(subpath (h thing) := None)\<rparr>)) thing)" for r
      using True c by (auto simp: removeChild_def assertWritable_def)
    have pr: "root h p = Some r \<Longrightarrow> isProtectionEnabled (h r) \<Longrightarrow> \<not> isRunningAction (h r) \<Longrightarrow>
        removeChild h p (subpath (h thing)) = Some (Inl ProtectedTreeError, h)" for r
      using True by (simp add: removeChild_def assertWritable_def)
    from Some d w pr show ?thesis
      by (auto simp: isRoot_def nodeIsRoot_def getStateTreeNode_def isAlive_def die_self)
  next
    case False
    with Some live have dead: "\<not> nodeIsAlive (h thing)" by auto
    have "removeChild h p (subpath (h thing)) = Some (Inl DeadNodeError, h)"
      using False by (simp add: removeChild_def)
    with Some d dead False show ?thesis
      by (simp add: isRoot_def nodeIsRoot_def getStateTreeNode_def isAlive_def)
  qed
qed

theorem destroy_ends_life_witness:
  "(\<exists>h'. destroy sampleUnprotected 2 = Some (Inr (), h') \<and> \<not> isAlive h' 2)
   \<and> (\<exists>h'. destroy sampleInAction 2 = Some (Inr (), h') \<and> \<not> isAlive h' 2)
   \<and> (\<exists>h'. destroy sample 0 = Some (Inr (), h') \<and> \<not> isAlive h' 0)
   \<and> destroy sample 2 = Some (Inl ProtectedTreeError, sample)"
proof -
  have nu: "\<forall>p. parent (sampleUnprotected 2) = Some p \<longrightarrow>
      childNodes (sampleUnprotected p) (subpath (sampleUnprotected 2)) = Some 2"
    by (simp add: sampleUnprotected_fields)
  have lu: "\<forall>p. parent (sampleUnprotected 2) = Some p \<longrightarrow>
      nodeIsAlive (sampleUnprotected 2) \<longrightarrow> nodeIsAlive (sampleUnprotected p)"
    by (simp add: sampleUnprotected_fields)
  have na: "\<forall>p. parent (sampleInAction 2) = Some p \<longrightarrow>
      childNodes (sampleInAction p) (subpath (sampleInAction 2)) = Some 2"
    by (simp add: sampleInAction_fields)
  have la: "\<forall>p. parent (sampleInAction 2) = Some p \<longrightarrow>
      nodeIsAlive (sampleInAction 2) \<longrightarrow> nodeIsAlive (sampleInAction p)"
    by (simp add: sampleInAction_fields)
  have n2: "\<forall>p. parent (sample 2) = Some p \<longrightarrow> childNodes (sample p) (subpath (sample 2)) = Some 2"
    by (simp add: sample_fields)
  have l2: "\<forall>p. parent (sample 2) = Some p \<longrightarrow> nodeIsAlive (sample 2) \<longrightarrow> nodeIsAlive (sample p)"
    by (simp add: sample_fields)
  have n0: "\<forall>p. parent (sample 0) = Some p \<longrightarrow> childNodes (sample p) (subpath (sample 0)) = Some 0"
    by (simp add: sample_fields)
  have l0: "\<forall>p. parent (sample 0) = Some p \<longrightarrow> nodeIsAlive (sample 0) \<longrightarrow> nodeIsAlive (sample p)"
    by (simp add: sample_fields)
  have r0: "isRoot sample 0"
    by (simp add: isRoot_def nodeIsRoot_def getStateTreeNode_def sample_fields)
  note tu = destroy_ends_life [OF nu lu] and ta = destroy_ends_life [OF na la]
    and t2 = destroy_ends_life [OF n2 l2] and t0 = destroy_ends_life [OF n0 l0]
  have u: "\<exists>h'. destroy sampleUnprotected 2 = Some (Inr (), h') \<and> \<not> isAlive h' 2"
  proof -
    from tu sampleUnprotected_fields sampleUnprotected_root
    have "\<exists>h'. destroy sampleUnprotected 2 = Some (Inr (), h')" by blast
    moreover from tu sampleUnprotected_fields sampleUnprotected_root
    have "\<exists>res h'. destroy sampleUnprotected 2 = Some (res, h') \<and> \<not> isAlive h' 2" by blast
    ultimately show ?thesis by auto
  qed
  have a: "\<exists>h'. destroy sampleInAction 2 = Some (Inr (), h') \<and> \<not> isAlive h' 2"
  proof -
    from ta sampleInAction_fields sampleInAction_root
    have "\<exists>h'. destroy sampleInAction 2 = Some (Inr (), h')" by blast
    moreover from ta sampleInAction_fields sampleInAction_root
    have "\<exists>res h'. destroy sampleInAction 2 = Some (res, h') \<and> \<not> isAlive h' 2" by blast
    ultimately show ?thesis by auto
  qed
  have z: "\<exists>h'. destroy sample 0 = Some (Inr (), h') \<and> \<not> isAlive h' 0"
  proof -
    from t0 r0 have "\<exists>h'. destroy sample 0 = Some (Inr (), h')" by blast
    moreover from t0 r0
    have "\<exists>res h'. destroy sample 0 = Some (res, h') \<and> \<not> isAlive h' 0" by blast
    ultimately show ?thesis by auto
  qed
  from t2 sample_fields sample_root
  have p: "destroy sample 2 = Some (Inl ProtectedTreeError, sample)" by blast
  from u a z p show ?thesis by blast
qed

text \<open>
  C7, as the claim has it, fails on a protected tree: outside an action, \<^verbatim>\<open>detach\<close> on a
  node with a parent is stopped by the protection of the tree, and the node keeps its
  parent.
\<close>

theorem detach_protected_counterexample:
  "detach sample 2 = Some (Inl ProtectedTreeError, sample) \<and> \<not> isRoot sample 2
   \<and> getParent sample 2 None = Some (Inr 101)"
  by (simp add: detach_def nodeDetach_def assertWritable_def sample_root sample_fields
      getStateTreeNode_def isRoot_def nodeIsRoot_def getParent_def getParent_loop.simps)

text \<open>
  C7, amended. On a live node that has a parent, in a tree that is unprotected or runs an
  action, \<^verbatim>\<open>detach(child)\<close> returns the value it was given; afterwards the child is alive,
  is a root, and \<^verbatim>\<open>getParent(child)\<close> fails because no parent is found. In a tree that is
  protected and runs no action, \<^verbatim>\<open>detach(child)\<close> fails with \<open>ProtectedTreeError\<close> and
  changes nothing.
\<close>

theorem detach_makes_root:
  assumes "parent (h child) = Some p" and "nodeIsAlive (h child)" and "root h child = Some r"
  shows "(\<not> isProtectionEnabled (h r) \<or> isRunningAction (h r) \<longrightarrow>
           (\<exists>h'. detach h child = Some (Inr child, h')
              \<and> isAlive h' child = True \<and> isRoot h' child = True
              \<and> getParent h' child None = Some (Inl (ParentNotFound child 1))))
       \<and> (isProtectionEnabled (h r) \<and> \<not> isRunningAction (h r) \<longrightarrow>
           detach h child = Some (Inl ProtectedTreeError, h))"
  using assms
  by (auto simp: detach_def nodeDetach_def assertWritable_def Let_def isAlive_def isRoot_def
      nodeIsRoot_def getStateTreeNode_def getParent_def getParent_loop.simps)

theorem detach_makes_root_witness:
  "(\<exists>h'. detach sampleUnprotected 2 = Some (Inr 2, h') \<and> isAlive h' 2 \<and> isRoot h' 2
        \<and> getParent h' 2 None = Some (Inl (ParentNotFound 2 1)))
   \<and> (\<exists>h'. detach sampleInAction 2 = Some (Inr 2, h') \<and> isAlive h' 2 \<and> isRoot h' 2
        \<and> getParent h' 2 None = Some (Inl (ParentNotFound 2 1)))
   \<and> detach sample 2 = Some (Inl ProtectedTreeError, sample)"
proof -
  note tu = detach_makes_root [OF sampleUnprotected_fields(1) sampleUnprotected_fields(5)
      sampleUnprotected_root(1)]
    and ta = detach_makes_root [OF sampleInAction_fields(1) sampleInAction_fields(5)
      sampleInAction_root(1)]
    and tp = detach_makes_root [OF sample_fields(1) sample_fields(5) sample_root(1)]
  from tu sampleUnprotected_fields(8)
  have u: "\<exists>h'. detach sampleUnprotected 2 = Some (Inr 2, h') \<and> isAlive h' 2 \<and> isRoot h' 2
        \<and> getParent h' 2 None = Some (Inl (ParentNotFound 2 1))" by simp
  from ta sampleInAction_fields(9)
  have a: "\<exists>h'. detach sampleInAction 2 = Some (Inr 2, h') \<and> isAlive h' 2 \<and> isRoot h' 2
        \<and> getParent h' 2 None = Some (Inl (ParentNotFound 2 1))" by simp
  from tp sample_fields(9,10)
  have p: "detach sample 2 = Some (Inl ProtectedTreeError, sample)" by simp
  from u a p show ?thesis by blast
qed

section \<open>Resolution\<close>

text \<open>
  C3. In a tree, \<^verbatim>\<open>tryResolve(target, path)\<close> returns and never raises. Where the strict
  resolution of the path fails with \<open>ResolutionError\<close>, it returns \<^verbatim>\<open>undefined\<close>; where the
  path resolves to a node, it returns the value of that node.
\<close>

theorem tryResolve_never_raises:
  assumes "chainEnds h target"
  shows "(\<exists>r. tryResolve h target path = Some (Inr r))
       \<and> (resolve h target path True = Some (Inl ResolutionError) \<longrightarrow>
             tryResolve h target path = Some (Inr None))
       \<and> (\<forall>m. resolve h target path True = Some (Inr (Some m)) \<longrightarrow>
             tryResolve h target path = Some (Inr (Some (nodeValue (h m)))))"
proof -
  from root_of_chainEnds [OF assms] obtain r where r: "root h target = Some r" by blast
  then have "\<exists>start segs. resolveStart h target path = Some (start, segs)"
    by (cases path) (simp_all add: resolveStart_def)
  then obtain start segs where s: "resolveStart h target path = Some (start, segs)"
    by blast
  show ?thesis
    by (cases "resolveParts h start segs") (simp_all add: tryResolve_def resolve_def s)
qed

theorem tryResolve_never_raises_witness:
  "tryResolve sample 2 ''../../a/b'' = Some (Inr (Some 102))
   \<and> tryResolve sample 2 ''../x'' = Some (Inr None)
   \<and> tryResolve sample 2 ''/a'' = Some (Inr (Some 101))"
proof -
  have r: "root sample 2 = Some 0"
    by (simp add: root.simps sample_def blank_def)
  have a: "resolve sample 2 ''../../a/b'' True = Some (Inr (Some 2))"
    by (simp add: resolve_def resolveStart_def segments_def sample_def blank_def)
  have b: "resolve sample 2 ''../x'' True = Some (Inl ResolutionError)"
    by (simp add: resolve_def resolveStart_def segments_def sample_def blank_def)
  have c: "resolve sample 2 ''/a'' True = Some (Inr (Some 1))"
    by (simp add: resolve_def resolveStart_def segments_def r) (simp add: sample_def blank_def)
  have v: "nodeValue (sample 2) = 102" "nodeValue (sample 1) = 101"
    by (simp_all add: nodeValue_def sample_def blank_def)
  from tryResolve_never_raises [OF chainEnds_sample_2, of "''../../a/b''"]
       tryResolve_never_raises [OF chainEnds_sample_2, of "''../x''"]
       tryResolve_never_raises [OF chainEnds_sample_2, of "''/a''"] a b c v
  show ?thesis by simp
qed



section \<open>Feeds, atomic units and recorders\<close>

lemma logEvent_fields [simp]:
  "events (logEvent e s) = events s @ [e]"
  "nodes (logEvent e s) = nodes s"
  "inBatch (logEvent e s) = inBatch s"
  "changed (logEvent e s) = changed s"
  "patchRecorders (logEvent e s) = patchRecorders s"
  "actionRecorders (logEvent e s) = actionRecorders s"
  "nextRecorder (logEvent e s) = nextRecorder s"
  by (simp_all add: logEvent_def)

lemma callPatchListener_fields [simp]:
  "events (callPatchListener p l s) = events s @ [PatchListenerCalled l p]"
  "nodes (callPatchListener p l s) = nodes s"
  "inBatch (callPatchListener p l s) = inBatch s"
  "changed (callPatchListener p l s) = changed s"
  "actionRecorders (callPatchListener p l s) = actionRecorders s"
  "patchRecorders (callPatchListener p l s) r =
     (if l = PushPatch r then patchRecorders s r @ [p] else patchRecorders s r)"
  by (auto simp: callPatchListener_def Let_def split: patchListener.splits)

lemma callActionListener_fields [simp]:
  "events (callActionListener c l s) = events s @ [ActionListenerCalled l c]"
  "nodes (callActionListener c l s) = nodes s"
  "inBatch (callActionListener c l s) = inBatch s"
  "changed (callActionListener c l s) = changed s"
  "patchRecorders (callActionListener c l s) = patchRecorders s"
  "actionRecorders (callActionListener c l s) r =
     (if l = PushAction r then actionRecorders s r @ [c] else actionRecorders s r)"
  by (auto simp: callActionListener_def Let_def split: actionListener.splits)

lemma fold_callPatchListener:
  "events (fold (callPatchListener p) ls s) = events s @ map (\<lambda>l. PatchListenerCalled l p) ls
   \<and> nodes (fold (callPatchListener p) ls s) = nodes s
   \<and> inBatch (fold (callPatchListener p) ls s) = inBatch s
   \<and> changed (fold (callPatchListener p) ls s) = changed s
   \<and> actionRecorders (fold (callPatchListener p) ls s) = actionRecorders s
   \<and> patchRecorders (fold (callPatchListener p) ls s) r =
       patchRecorders s r @ replicate (count_list ls (PushPatch r)) p"
  by (induction ls arbitrary: s) (simp_all add: replicate_app_Cons_same)

lemma fold_callActionListener:
  "events (fold (callActionListener c) ls s) = events s @ map (\<lambda>l. ActionListenerCalled l c) ls
   \<and> nodes (fold (callActionListener c) ls s) = nodes s
   \<and> inBatch (fold (callActionListener c) ls s) = inBatch s
   \<and> changed (fold (callActionListener c) ls s) = changed s
   \<and> patchRecorders (fold (callActionListener c) ls s) = patchRecorders s
   \<and> actionRecorders (fold (callActionListener c) ls s) r =
       actionRecorders s r @ replicate (count_list ls (PushAction r)) c"
  by (induction ls arbitrary: s) (simp_all add: replicate_app_Cons_same)

lemma emitPatch_fields:
  "nodes (emitPatch n p s) = nodes s"
  "inBatch (emitPatch n p s) = inBatch s"
  "changed (emitPatch n p s) = changed s"
  "events (emitPatch n p s) = events s @ map (\<lambda>l. PatchListenerCalled l p) (patchSubscribers (nodes s n))"
  "patchRecorders (emitPatch n p s) r =
     patchRecorders s r @ replicate (count_list (patchSubscribers (nodes s n)) (PushPatch r)) p"
  by (simp_all add: emitPatch_def fold_callPatchListener)

lemma emitAction_fields:
  "nodes (emitAction n c s) = nodes s"
  "inBatch (emitAction n c s) = inBatch s"
  "changed (emitAction n c s) = changed s"
  "events (emitAction n c s) = events s @ map (\<lambda>l. ActionListenerCalled l c) (actionSubscribers (nodes s n))"
  "actionRecorders (emitAction n c s) r =
     actionRecorders s r @ replicate (count_list (actionSubscribers (nodes s n)) (PushAction r)) c"
  by (simp_all add: emitAction_def fold_callActionListener)

lemma fold_emitPatch_records:
  assumes "count_list (patchSubscribers (nodes s n)) (PushPatch r) = 1"
  shows "patchRecorders (fold (emitPatch n) ps s) r = patchRecorders s r @ ps
       \<and> nodes (fold (emitPatch n) ps s) = nodes s"
  using assms
proof (induction ps arbitrary: s)
  case Nil
  then show ?case by simp
next
  case (Cons p ps)
  have "count_list (patchSubscribers (nodes (emitPatch n p s) n)) (PushPatch r) = 1"
    using Cons.prems by (simp add: emitPatch_fields)
  from Cons.IH [OF this] Cons.prems show ?case
    by (simp add: emitPatch_fields)
qed

lemma fold_emitAction_records:
  assumes "count_list (actionSubscribers (nodes s n)) (PushAction r) = 1"
  shows "actionRecorders (fold (emitAction n) cs s) r = actionRecorders s r @ cs
       \<and> nodes (fold (emitAction n) cs s) = nodes s"
  using assms
proof (induction cs arbitrary: s)
  case Nil
  then show ?case by simp
next
  case (Cons c cs)
  have "count_list (actionSubscribers (nodes (emitAction n c s) n)) (PushAction r) = 1"
    using Cons.prems by (simp add: emitAction_fields)
  from Cons.IH [OF this] Cons.prems show ?case
    by (simp add: emitAction_fields)
qed

lemma count_list_fresh: "x \<notin> set xs \<Longrightarrow> count_list (xs @ [x]) x = 1"
  by (simp add: count_list_0_iff)

lemma recordPatches_subscribes:
  assumes "PushPatch (nextRecorder s) \<notin> set (patchSubscribers (nodes s subject))"
  shows "recorderRef (fst (recordPatches subject s)) = nextRecorder s
       \<and> patchSubscribers (nodes (snd (recordPatches subject s)) subject) =
           patchSubscribers (nodes s subject) @ [PushPatch (nextRecorder s)]
       \<and> patchRecorders (snd (recordPatches subject s)) (nextRecorder s) = []
       \<and> (\<forall>ps. patchRecorders (fold (emitPatch subject) ps (snd (recordPatches subject s)))
                  (nextRecorder s) = ps)"
proof -
  let ?s2 = "snd (recordPatches subject s)"
  have subs: "patchSubscribers (nodes ?s2 subject) =
      patchSubscribers (nodes s subject) @ [PushPatch (nextRecorder s)]"
    by (simp add: recordPatches_def onPatch_def nodeOnPatch_def Let_def)
  have empty: "patchRecorders ?s2 (nextRecorder s) = []"
    by (simp add: recordPatches_def onPatch_def nodeOnPatch_def Let_def)
  have one: "count_list (patchSubscribers (nodes ?s2 subject)) (PushPatch (nextRecorder s)) = 1"
    unfolding subs using assms by (rule count_list_fresh)
  have "recorderRef (fst (recordPatches subject s)) = nextRecorder s"
    by (simp add: recordPatches_def onPatch_def nodeOnPatch_def Let_def)
  with subs empty fold_emitPatch_records [OF one] show ?thesis by simp
qed

lemma recordActions_subscribes:
  assumes "PushAction (nextRecorder s) \<notin> set (actionSubscribers (nodes s subject))"
  shows "recorderRef (fst (recordActions subject s)) = nextRecorder s
       \<and> actionSubscribers (nodes (snd (recordActions subject s)) subject) =
           actionSubscribers (nodes s subject) @ [PushAction (nextRecorder s)]
       \<and> actionRecorders (snd (recordActions subject s)) (nextRecorder s) = []
       \<and> (\<forall>cs. actionRecorders (fold (emitAction subject) cs (snd (recordActions subject s)))
                  (nextRecorder s) = cs)"
proof -
  let ?s2 = "snd (recordActions subject s)"
  have subs: "actionSubscribers (nodes ?s2 subject) =
      actionSubscribers (nodes s subject) @ [PushAction (nextRecorder s)]"
    by (simp add: recordActions_def onAction_def Let_def)
  have empty: "actionRecorders ?s2 (nextRecorder s) = []"
    by (simp add: recordActions_def onAction_def Let_def)
  have one: "count_list (actionSubscribers (nodes ?s2 subject)) (PushAction (nextRecorder s)) = 1"
    unfolding subs using assms by (rule count_list_fresh)
  have "recorderRef (fst (recordActions subject s)) = nextRecorder s"
    by (simp add: recordActions_def onAction_def Let_def)
  with subs empty fold_emitAction_records [OF one] show ?thesis by simp
qed

lemma nesting_append: "nesting d xs = Some d' \<Longrightarrow> nesting d (xs @ ys) = nesting d' ys"
  by (induction d xs rule: nesting.induct) (auto split: nat.splits)

lemma feedCalls_neutral:
  "list_all isFeedCall es \<Longrightarrow>
     filter isApplied es = [] \<and> (\<forall>e\<in>set es. \<not> isSnapshotCall e) \<and> nesting d es = Some d"
proof (induction es)
  case Nil
  then show ?case by simp
next
  case (Cons e es)
  then show ?case by (cases e) simp_all
qed

lemma fold_emitAction_events:
  "\<exists>calls. events (fold (\<lambda>(n, call). emitAction n call) xs s) = events s @ calls
       \<and> list_all isFeedCall calls
       \<and> inBatch (fold (\<lambda>(n, call). emitAction n call) xs s) = inBatch s"
proof (induction xs arbitrary: s)
  case Nil
  then show ?case by simp
next
  case (Cons x xs)
  obtain n c where x: "x = (n, c)" by (cases x)
  from Cons.IH [of "emitAction n c s"] obtain calls where
    "events (fold (\<lambda>(n, call). emitAction n call) xs (emitAction n c s)) =
       events (emitAction n c s) @ calls"
    "list_all isFeedCall calls"
    "inBatch (fold (\<lambda>(n, call). emitAction n call) xs (emitAction n c s)) = inBatch (emitAction n c s)"
    by blast
  then show ?case
    by (auto simp: x emitAction_fields list_all_iff)
qed

lemma fold_emitPatch_events:
  "\<exists>calls. events (fold (\<lambda>(n, patch). emitPatch n patch) xs s) = events s @ calls
       \<and> list_all isFeedCall calls
       \<and> inBatch (fold (\<lambda>(n, patch). emitPatch n patch) xs s) = inBatch s"
proof (induction xs arbitrary: s)
  case Nil
  then show ?case by simp
next
  case (Cons x xs)
  obtain n c where x: "x = (n, c)" by (cases x)
  from Cons.IH [of "emitPatch n c s"] obtain calls where
    "events (fold (\<lambda>(n, patch). emitPatch n patch) xs (emitPatch n c s)) =
       events (emitPatch n c s) @ calls"
    "list_all isFeedCall calls"
    "inBatch (fold (\<lambda>(n, patch). emitPatch n patch) xs (emitPatch n c s)) = inBatch (emitPatch n c s)"
    by blast
  then show ?case
    by (auto simp: x emitPatch_fields list_all_iff)
qed

lemma commit_events:
  "\<exists>calls. events (commit eff s) = events s @ calls \<and> list_all isFeedCall calls
       \<and> inBatch (commit eff s) = inBatch s"
proof -
  let ?s1 = "s\<lparr>nodes := newNodes eff, changed := changed s @ touched eff\<rparr>"
  let ?s2 = "fold (\<lambda>(n, call). emitAction n call) (actionsEmitted eff) ?s1"
  from fold_emitAction_events [of "actionsEmitted eff" ?s1] obtain c1 where
    c1: "events ?s2 = events ?s1 @ c1" "list_all isFeedCall c1" "inBatch ?s2 = inBatch ?s1"
    by blast
  from fold_emitPatch_events [of "patchesEmitted eff" ?s2] obtain c2 where
    c2: "events (fold (\<lambda>(n, patch). emitPatch n patch) (patchesEmitted eff) ?s2) = events ?s2 @ c2"
      "list_all isFeedCall c2"
      "inBatch (fold (\<lambda>(n, patch). emitPatch n patch) (patchesEmitted eff) ?s2) = inBatch ?s2"
    by blast
  have "events (commit eff s) = events s @ (c1 @ c2)"
    using c1 c2 by (simp add: commit_def Let_def)
  moreover have "list_all isFeedCall (c1 @ c2)" using c1 c2 by simp
  moreover have "inBatch (commit eff s) = inBatch s"
    using c1 c2 by (simp add: commit_def Let_def)
  ultimately show ?thesis by blast
qed

lemma fold_logSnapshot:
  "events (fold (\<lambda>l. logEvent (SnapshotListenerCalled n l)) ls s) =
     events s @ map (SnapshotListenerCalled n) ls
   \<and> nodes (fold (\<lambda>l. logEvent (SnapshotListenerCalled n l)) ls s) = nodes s
   \<and> inBatch (fold (\<lambda>l. logEvent (SnapshotListenerCalled n l)) ls s) = inBatch s
   \<and> patchRecorders (fold (\<lambda>l. logEvent (SnapshotListenerCalled n l)) ls s) = patchRecorders s
   \<and> actionRecorders (fold (\<lambda>l. logEvent (SnapshotListenerCalled n l)) ls s) = actionRecorders s"
  by (induction ls arbitrary: s) simp_all

lemma callSnapshotListeners_fields:
  "events (callSnapshotListeners n s) =
     events s @ map (SnapshotListenerCalled n) (snapshotSubscribers (nodes s n))"
  "nodes (callSnapshotListeners n s) = nodes s"
  "inBatch (callSnapshotListeners n s) = inBatch s"
  "patchRecorders (callSnapshotListeners n s) = patchRecorders s"
  "actionRecorders (callSnapshotListeners n s) = actionRecorders s"
  by (simp_all add: callSnapshotListeners_def fold_logSnapshot)

lemma fold_callSnapshotListeners:
  "\<exists>fl. events (fold callSnapshotListeners ns s) = events s @ fl
       \<and> (\<forall>e\<in>set fl. isSnapshotCall e)
       \<and> nodes (fold callSnapshotListeners ns s) = nodes s
       \<and> inBatch (fold callSnapshotListeners ns s) = inBatch s
       \<and> patchRecorders (fold callSnapshotListeners ns s) = patchRecorders s
       \<and> actionRecorders (fold callSnapshotListeners ns s) = actionRecorders s"
proof (induction ns arbitrary: s)
  case Nil
  then show ?case by simp
next
  case (Cons n ns)
  from Cons.IH [of "callSnapshotListeners n s"] obtain fl where
    "events (fold callSnapshotListeners ns (callSnapshotListeners n s)) =
       events (callSnapshotListeners n s) @ fl"
    "\<forall>e\<in>set fl. isSnapshotCall e"
    "nodes (fold callSnapshotListeners ns (callSnapshotListeners n s)) = nodes (callSnapshotListeners n s)"
    "inBatch (fold callSnapshotListeners ns (callSnapshotListeners n s)) = inBatch (callSnapshotListeners n s)"
    "patchRecorders (fold callSnapshotListeners ns (callSnapshotListeners n s)) = patchRecorders (callSnapshotListeners n s)"
    "actionRecorders (fold callSnapshotListeners ns (callSnapshotListeners n s)) = actionRecorders (callSnapshotListeners n s)"
    by blast
  then show ?case
    by (auto simp: callSnapshotListeners_fields)
qed

lemma endBatch_events:
  "\<exists>fl. events (endBatch s) = events s @ BatchEnd # fl
       \<and> (\<forall>e\<in>set fl. isSnapshotCall e)
       \<and> (1 < inBatch s \<longrightarrow> fl = [])
       \<and> inBatch (endBatch s) = inBatch s - 1
       \<and> nodes (endBatch s) = nodes s"
proof (cases "inBatch s - 1 = 0")
  case True
  let ?s1 = "logEvent BatchEnd (s\<lparr>inBatch := inBatch s - 1\<rparr>)"
  from fold_callSnapshotListeners [of "remdups (changed ?s1)" ?s1] obtain fl where
    "events (fold callSnapshotListeners (remdups (changed ?s1)) ?s1) = events ?s1 @ fl"
    "\<forall>e\<in>set fl. isSnapshotCall e"
    "nodes (fold callSnapshotListeners (remdups (changed ?s1)) ?s1) = nodes ?s1"
    "inBatch (fold callSnapshotListeners (remdups (changed ?s1)) ?s1) = inBatch ?s1"
    by blast
  with True show ?thesis
    by (auto simp: endBatch_def Let_def flushSnapshots_def)
next
  case False
  then show ?thesis by (simp add: endBatch_def Let_def)
qed

lemma startBatch_fields [simp]:
  "events (startBatch s) = events s @ [BatchStart]"
  "inBatch (startBatch s) = Suc (inBatch s)"
  "nodes (startBatch s) = nodes s"
  by (simp_all add: startBatch_def)

lemma handedOver_le: "handedOver layer target xs h \<le> length xs"
  by (induction xs arbitrary: h) (auto split: sum.splits)

lemma handedOver_all:
  "fst (applyAll layer target xs h) = Inr () \<Longrightarrow> handedOver layer target xs h = length xs"
  by (induction xs arbitrary: h) (auto split: sum.splits)

lemma fold_emitAction_nodes:
  "nodes (fold (\<lambda>(n, call). emitAction n call) xs s) = nodes s"
  by (induction xs arbitrary: s) (auto simp: emitAction_fields)

lemma fold_emitPatch_nodes:
  "nodes (fold (\<lambda>(n, patch). emitPatch n patch) xs s) = nodes s"
  by (induction xs arbitrary: s) (auto simp: emitPatch_fields)

lemma commit_nodes: "nodes (commit eff s) = newNodes eff"
  by (simp add: commit_def Let_def fold_emitPatch_nodes fold_emitAction_nodes)

lemma endBatch_changed: "inBatch s \<le> 1 \<Longrightarrow> changed (endBatch s) = []"
  by (simp add: endBatch_def Let_def flushSnapshots_def)

lemma forEach_applyOnePatch:
  "\<exists>mid. events (snd (forEach (applyOnePatch layer n) ps s)) = events s @ mid
       \<and> filter isApplied mid =
           map (PatchApplied n) (take (handedOver (patchLayerResult layer) n ps (nodes s)) ps)
       \<and> (\<forall>e\<in>set mid. \<not> isSnapshotCall e)
       \<and> nesting d mid = Some d
       \<and> inBatch (snd (forEach (applyOnePatch layer n) ps s)) = inBatch s
       \<and> fst (forEach (applyOnePatch layer n) ps s) =
           fst (applyAll (patchLayerResult layer) n ps (nodes s))
       \<and> nodes (snd (forEach (applyOnePatch layer n) ps s)) =
           snd (applyAll (patchLayerResult layer) n ps (nodes s))"
proof (induction ps arbitrary: s)
  case Nil
  show ?case by simp
next
  case (Cons p ps)
  show ?case
  proof (cases "layer (nodes s) n p")
    case None
    then have "forEach (applyOnePatch layer n) (p # ps) s =
        (Inl PatchApplicationError, logEvent (PatchApplied n p) s)"
      by (simp add: applyOnePatch_def Let_def)
    moreover from None have "patchLayerResult layer (nodes s) n p = Inl PatchApplicationError"
      by (simp add: patchLayerResult_def)
    ultimately show ?thesis
      by (intro exI [of _ "[PatchApplied n p]"]) simp
  next
    case (Some eff)
    let ?s1 = "commit eff (logEvent (PatchApplied n p) s)"
    have run: "forEach (applyOnePatch layer n) (p # ps) s = forEach (applyOnePatch layer n) ps ?s1"
      using Some by (simp add: applyOnePatch_def Let_def)
    from commit_events [of eff "logEvent (PatchApplied n p) s"] obtain calls where
      ev: "events ?s1 = events s @ PatchApplied n p # calls" and fc: "list_all isFeedCall calls"
      and ib: "inBatch ?s1 = inBatch s"
      by auto
    have nd: "nodes ?s1 = newNodes eff" by (rule commit_nodes)
    note neutral = feedCalls_neutral [OF fc, of d]
    from Cons.IH [of ?s1] obtain mid where
      ih: "events (snd (forEach (applyOnePatch layer n) ps ?s1)) = events ?s1 @ mid"
        "filter isApplied mid =
           map (PatchApplied n) (take (handedOver (patchLayerResult layer) n ps (nodes ?s1)) ps)"
        "\<forall>e\<in>set mid. \<not> isSnapshotCall e"
        "nesting d mid = Some d"
        "inBatch (snd (forEach (applyOnePatch layer n) ps ?s1)) = inBatch ?s1"
        "fst (forEach (applyOnePatch layer n) ps ?s1) =
           fst (applyAll (patchLayerResult layer) n ps (nodes ?s1))"
        "nodes (snd (forEach (applyOnePatch layer n) ps ?s1)) =
           snd (applyAll (patchLayerResult layer) n ps (nodes ?s1))"
      by blast
    have nest: "nesting d ((PatchApplied n p # calls) @ mid) = Some d"
      using neutral ih(4) by (simp add: nesting_append [where d' = d])
    from Some have plr: "patchLayerResult layer (nodes s) n p = Inr eff"
      by (simp add: patchLayerResult_def)
    from ih ev ib nd neutral nest plr show ?thesis
      unfolding run
      by (intro exI [of _ "(PatchApplied n p # calls) @ mid"]) auto
  qed
qed

lemma baseApplyAction_step:
  assumes "0 < inBatch s"
  shows "\<exists>calls. events (snd (baseApplyAction layer t a s)) =
            events s @ BatchStart # ActionApplied t a # calls @ [BatchEnd]
       \<and> list_all isFeedCall calls
       \<and> inBatch (snd (baseApplyAction layer t a s)) = inBatch s
       \<and> fst (baseApplyAction layer t a s) =
           (case layer (nodes s) t a of Inl e \<Rightarrow> Inl e | Inr eff \<Rightarrow> Inr ())
       \<and> nodes (snd (baseApplyAction layer t a s)) =
           (case layer (nodes s) t a of Inl e \<Rightarrow> nodes s | Inr eff \<Rightarrow> newNodes eff)"
proof -
  let ?s1 = "logEvent (ActionApplied t a) (startBatch s)"
  have "\<exists>calls s2 r. (case layer (nodes ?s1) t a of Inl e \<Rightarrow> (Inl e, ?s1)
                                  | Inr eff \<Rightarrow> (Inr (), commit eff ?s1)) = (r, s2)
          \<and> events s2 = events ?s1 @ calls \<and> list_all isFeedCall calls \<and> inBatch s2 = inBatch ?s1
          \<and> r = (case layer (nodes s) t a of Inl e \<Rightarrow> Inl e | Inr eff \<Rightarrow> Inr ())
          \<and> nodes s2 = (case layer (nodes s) t a of Inl e \<Rightarrow> nodes s | Inr eff \<Rightarrow> newNodes eff)"
  proof (cases "layer (nodes s) t a")
    case (Inl e)
    then show ?thesis by simp
  next
    case (Inr eff)
    from commit_events [of eff ?s1] Inr show ?thesis by (auto simp: commit_nodes)
  qed
  then obtain calls s2 r where
    body: "(case layer (nodes ?s1) t a of Inl e \<Rightarrow> (Inl e, ?s1)
             | Inr eff \<Rightarrow> (Inr (), commit eff ?s1)) = (r, s2)"
    and ev: "events s2 = events ?s1 @ calls" and fc: "list_all isFeedCall calls"
    and ib: "inBatch s2 = inBatch ?s1"
    and rr: "r = (case layer (nodes s) t a of Inl e \<Rightarrow> Inl e | Inr eff \<Rightarrow> Inr ())"
    and nn: "nodes s2 = (case layer (nodes s) t a of Inl e \<Rightarrow> nodes s | Inr eff \<Rightarrow> newNodes eff)"
    by blast
  have res: "baseApplyAction layer t a s = (r, endBatch s2)"
    using body by (simp add: baseApplyAction_def runInAction_def Let_def)
  from ib assms have deep: "1 < inBatch s2" by simp
  from endBatch_events [of s2] deep obtain fl where
    "events (endBatch s2) = events s2 @ BatchEnd # fl" "fl = []"
    "inBatch (endBatch s2) = inBatch s2 - 1" "nodes (endBatch s2) = nodes s2"
    by blast
  with ev fc ib res rr nn show ?thesis by simp
qed

lemma forEach_baseApplyAction:
  assumes "0 < inBatch s"
  shows "\<exists>mid. events (snd (forEach (\<lambda>a. baseApplyAction layer t a) as s)) = events s @ mid
       \<and> filter isApplied mid = map (ActionApplied t) (take (handedOver layer t as (nodes s)) as)
       \<and> (\<forall>e\<in>set mid. \<not> isSnapshotCall e)
       \<and> nesting d mid = Some d
       \<and> inBatch (snd (forEach (\<lambda>a. baseApplyAction layer t a) as s)) = inBatch s
       \<and> fst (forEach (\<lambda>a. baseApplyAction layer t a) as s) = fst (applyAll layer t as (nodes s))
       \<and> nodes (snd (forEach (\<lambda>a. baseApplyAction layer t a) as s)) =
           snd (applyAll layer t as (nodes s))"
  using assms
proof (induction as arbitrary: s)
  case Nil
  show ?case by simp
next
  case (Cons a as)
  obtain r s1 where step: "baseApplyAction layer t a s = (r, s1)"
    by (cases "baseApplyAction layer t a s")
  from baseApplyAction_step [OF Cons.prems, of layer t a] step obtain calls where
    ev: "events s1 = events s @ BatchStart # ActionApplied t a # calls @ [BatchEnd]"
    and fc: "list_all isFeedCall calls" and ib: "inBatch s1 = inBatch s"
    and rr: "r = (case layer (nodes s) t a of Inl e \<Rightarrow> Inl e | Inr eff \<Rightarrow> Inr ())"
    and nn: "nodes s1 = (case layer (nodes s) t a of Inl e \<Rightarrow> nodes s | Inr eff \<Rightarrow> newNodes eff)"
    by auto
  let ?blk = "BatchStart # ActionApplied t a # calls @ [BatchEnd]"
  note neutral = feedCalls_neutral [OF fc, of "Suc d"]
  have blk: "filter isApplied ?blk = [ActionApplied t a]" "\<forall>e\<in>set ?blk. \<not> isSnapshotCall e"
    "nesting d ?blk = Some d"
    using neutral by (simp_all add: nesting_append [where d' = "Suc d"])
  show ?case
  proof (cases "layer (nodes s) t a")
    case (Inl e)
    with step rr have "forEach (\<lambda>a. baseApplyAction layer t a) (a # as) s = (Inl e, s1)" by simp
    with ev ib blk nn Inl show ?thesis
      by (intro exI [of _ ?blk]) simp
  next
    case (Inr eff)
    with step rr have run: "forEach (\<lambda>a. baseApplyAction layer t a) (a # as) s =
        forEach (\<lambda>a. baseApplyAction layer t a) as s1" by simp
    from Inr nn have nd: "nodes s1 = newNodes eff" by simp
    from Cons.prems ib have "0 < inBatch s1" by simp
    from Cons.IH [OF this] obtain mid where
      ih: "events (snd (forEach (\<lambda>a. baseApplyAction layer t a) as s1)) = events s1 @ mid"
        "filter isApplied mid = map (ActionApplied t) (take (handedOver layer t as (nodes s1)) as)"
        "\<forall>e\<in>set mid. \<not> isSnapshotCall e"
        "nesting d mid = Some d"
        "inBatch (snd (forEach (\<lambda>a. baseApplyAction layer t a) as s1)) = inBatch s1"
        "fst (forEach (\<lambda>a. baseApplyAction layer t a) as s1) = fst (applyAll layer t as (nodes s1))"
        "nodes (snd (forEach (\<lambda>a. baseApplyAction layer t a) as s1)) =
           snd (applyAll layer t as (nodes s1))"
      by blast
    have nest: "nesting d (?blk @ mid) = Some d"
      using blk(3) ih(4) by (simp only: nesting_append [where d' = d])
    have app: "filter isApplied (?blk @ mid) =
        map (ActionApplied t) (take (handedOver layer t (a # as) (nodes s)) (a # as))"
      using blk(1) ih(2) Inr nd by (simp only: filter_append) simp
    have nos: "\<forall>e\<in>set (?blk @ mid). \<not> isSnapshotCall e"
      using blk(2) ih(3) by (simp only: set_append) blast
    from ih(1,5,6,7) ev ib nest app nos Inr nd show ?thesis
      unfolding run
      by (intro exI [of _ "?blk @ mid"]) simp
  qed
qed

lemma runInAction_wrap:
  assumes ev: "events (snd (body (startBatch s))) = events (startBatch s) @ mid"
      and ib: "inBatch (snd (body (startBatch s))) = inBatch (startBatch s)"
  shows "\<exists>fl. events (snd (runInAction body s)) = events s @ BatchStart # mid @ BatchEnd # fl
       \<and> (\<forall>e\<in>set fl. isSnapshotCall e)
       \<and> (0 < inBatch s \<longrightarrow> fl = [])
       \<and> inBatch (snd (runInAction body s)) = inBatch s
       \<and> (inBatch s = 0 \<longrightarrow> changed (snd (runInAction body s)) = [])
       \<and> fst (runInAction body s) = fst (body (startBatch s))
       \<and> nodes (snd (runInAction body s)) = nodes (snd (body (startBatch s)))"
proof -
  obtain r s1 where b: "body (startBatch s) = (r, s1)" by (cases "body (startBatch s)")
  from ev ib b have m: "events s1 = events s @ BatchStart # mid" "inBatch s1 = Suc (inBatch s)"
    by simp_all
  from endBatch_events [of s1] obtain fl where
    e: "events (endBatch s1) = events s1 @ BatchEnd # fl" "\<forall>e\<in>set fl. isSnapshotCall e"
      "1 < inBatch s1 \<longrightarrow> fl = []"
      "inBatch (endBatch s1) = inBatch s1 - 1" "nodes (endBatch s1) = nodes s1"
    by blast
  have c: "inBatch s = 0 \<longrightarrow> changed (endBatch s1) = []"
    using m(2) by (simp add: endBatch_changed)
  have res: "runInAction body s = (r, endBatch s1)" using b by (simp add: runInAction_def)
  from m e c b show ?thesis
    unfolding res
    by (intro exI [of _ fl]) simp
qed

lemma applyAction_events:
  "fst (applyAction layer target actions s) = fst (applyAll layer target (asArray actions) (nodes s))
 \<and> nodes (snd (applyAction layer target actions s)) =
     snd (applyAll layer target (asArray actions) (nodes s))
 \<and> inBatch (snd (applyAction layer target actions s)) = inBatch s
 \<and> (inBatch s = 0 \<longrightarrow> changed (snd (applyAction layer target actions s)) = [])
 \<and> (\<exists>mid fl.
      events (snd (applyAction layer target actions s)) = events s @ BatchStart # mid @ BatchEnd # fl
    \<and> filter isApplied mid =
        map (ActionApplied target)
          (take (handedOver layer target (asArray actions) (nodes s)) (asArray actions))
    \<and> (\<forall>e\<in>set mid. \<not> isSnapshotCall e)
    \<and> nesting 0 mid = Some 0
    \<and> (\<forall>e\<in>set fl. isSnapshotCall e)
    \<and> (0 < inBatch s \<longrightarrow> fl = []))"
proof -
  let ?body = "forEach (\<lambda>action. baseApplyAction layer target action) (asArray actions)"
  have pos: "0 < inBatch (startBatch s)" by simp
  from forEach_baseApplyAction [OF pos, of layer target "asArray actions" 0] obtain mid where
    m: "events (snd (?body (startBatch s))) = events (startBatch s) @ mid"
      "filter isApplied mid =
         map (ActionApplied target)
           (take (handedOver layer target (asArray actions) (nodes s)) (asArray actions))"
      "\<forall>e\<in>set mid. \<not> isSnapshotCall e" "nesting 0 mid = Some 0"
      "inBatch (snd (?body (startBatch s))) = inBatch (startBatch s)"
      "fst (?body (startBatch s)) = fst (applyAll layer target (asArray actions) (nodes s))"
      "nodes (snd (?body (startBatch s))) = snd (applyAll layer target (asArray actions) (nodes s))"
    by auto
  from runInAction_wrap [where body = ?body and s = s and mid = mid, OF m(1) m(5)] obtain fl where
    w: "events (snd (runInAction ?body s)) = events s @ BatchStart # mid @ BatchEnd # fl"
      "\<forall>e\<in>set fl. isSnapshotCall e" "0 < inBatch s \<longrightarrow> fl = []"
      "inBatch (snd (runInAction ?body s)) = inBatch s"
      "inBatch s = 0 \<longrightarrow> changed (snd (runInAction ?body s)) = []"
      "fst (runInAction ?body s) = fst (?body (startBatch s))"
      "nodes (snd (runInAction ?body s)) = nodes (snd (?body (startBatch s)))"
    by (elim exE conjE) (rule that)
  have ex: "\<exists>mid fl.
      events (snd (runInAction ?body s)) = events s @ BatchStart # mid @ BatchEnd # fl
    \<and> filter isApplied mid =
        map (ActionApplied target)
          (take (handedOver layer target (asArray actions) (nodes s)) (asArray actions))
    \<and> (\<forall>e\<in>set mid. \<not> isSnapshotCall e)
    \<and> nesting 0 mid = Some 0
    \<and> (\<forall>e\<in>set fl. isSnapshotCall e)
    \<and> (0 < inBatch s \<longrightarrow> fl = [])"
  proof (intro exI conjI)
    show "events (snd (runInAction ?body s)) = events s @ BatchStart # mid @ BatchEnd # fl"
      by (rule w(1))
  qed (rule m(2) m(3) m(4) w(2) w(3))+
  from m(6,7) w(4-7) ex show ?thesis
    unfolding applyAction_def by simp
qed

lemma applyPatches_events:
  assumes "nodeIsAlive (nodes s n)"
  shows "fst (applyPatches layer n ps s) = fst (applyAll (patchLayerResult layer) n ps (nodes s))
 \<and> nodes (snd (applyPatches layer n ps s)) = snd (applyAll (patchLayerResult layer) n ps (nodes s))
 \<and> inBatch (snd (applyPatches layer n ps s)) = inBatch s
 \<and> (inBatch s = 0 \<longrightarrow> changed (snd (applyPatches layer n ps s)) = [])
 \<and> (\<exists>mid fl.
      events (snd (applyPatches layer n ps s)) = events s @ BatchStart # mid @ BatchEnd # fl
    \<and> filter isApplied mid =
        map (PatchApplied n) (take (handedOver (patchLayerResult layer) n ps (nodes s)) ps)
    \<and> (\<forall>e\<in>set mid. \<not> isSnapshotCall e)
    \<and> nesting 0 mid = Some 0
    \<and> (\<forall>e\<in>set fl. isSnapshotCall e)
    \<and> (0 < inBatch s \<longrightarrow> fl = []))"
proof -
  let ?body = "forEach (applyOnePatch layer n) ps"
  have eq: "applyPatches layer n ps s = runInAction ?body s"
    using assms by (simp add: applyPatches_def)
  from forEach_applyOnePatch [of layer n ps "startBatch s" 0] obtain mid where
    m: "events (snd (?body (startBatch s))) = events (startBatch s) @ mid"
      "filter isApplied mid =
         map (PatchApplied n) (take (handedOver (patchLayerResult layer) n ps (nodes s)) ps)"
      "\<forall>e\<in>set mid. \<not> isSnapshotCall e" "nesting 0 mid = Some 0"
      "inBatch (snd (?body (startBatch s))) = inBatch (startBatch s)"
      "fst (?body (startBatch s)) = fst (applyAll (patchLayerResult layer) n ps (nodes s))"
      "nodes (snd (?body (startBatch s))) = snd (applyAll (patchLayerResult layer) n ps (nodes s))"
    by auto
  from runInAction_wrap [where body = ?body and s = s and mid = mid, OF m(1) m(5)] obtain fl where
    w: "events (snd (runInAction ?body s)) = events s @ BatchStart # mid @ BatchEnd # fl"
      "\<forall>e\<in>set fl. isSnapshotCall e" "0 < inBatch s \<longrightarrow> fl = []"
      "inBatch (snd (runInAction ?body s)) = inBatch s"
      "inBatch s = 0 \<longrightarrow> changed (snd (runInAction ?body s)) = []"
      "fst (runInAction ?body s) = fst (?body (startBatch s))"
      "nodes (snd (runInAction ?body s)) = nodes (snd (?body (startBatch s)))"
    by (elim exE conjE) (rule that)
  have ex: "\<exists>mid fl.
      events (snd (runInAction ?body s)) = events s @ BatchStart # mid @ BatchEnd # fl
    \<and> filter isApplied mid =
        map (PatchApplied n) (take (handedOver (patchLayerResult layer) n ps (nodes s)) ps)
    \<and> (\<forall>e\<in>set mid. \<not> isSnapshotCall e)
    \<and> nesting 0 mid = Some 0
    \<and> (\<forall>e\<in>set fl. isSnapshotCall e)
    \<and> (0 < inBatch s \<longrightarrow> fl = [])"
  proof (intro exI conjI)
    show "events (snd (runInAction ?body s)) = events s @ BatchStart # mid @ BatchEnd # fl"
      by (rule w(1))
  qed (rule m(2) m(3) m(4) w(2) w(3))+
  from m(6,7) w(4-7) ex show ?thesis
    unfolding eq by simp
qed

lemma endBatch_startBatch_quiet:
  assumes "inBatch s = 0 \<longrightarrow> changed s = []"
  shows "endBatch (startBatch s) = s\<lparr>events := events s @ [BatchStart, BatchEnd]\<rparr>"
  using assms
  by (cases "inBatch s")
    (simp_all add: endBatch_def startBatch_def logEvent_def flushSnapshots_def Let_def)

lemma runInAction_quiet: "inBatch (snd (runInAction body s)) = 0 \<longrightarrow> changed (snd (runInAction body s)) = []"
  by (cases "body (startBatch s)")
    (simp add: runInAction_def endBatch_def flushSnapshots_def Let_def)

lemma fold_emitPatch_same_nodes: "nodes (fold (emitPatch n) ps s) = nodes s"
  by (induction ps arbitrary: s) (simp_all add: emitPatch_fields)

lemma fold_emitAction_same_nodes: "nodes (fold (emitAction n) cs s) = nodes s"
  by (induction cs arbitrary: s) (simp_all add: emitAction_fields)

lemma sample_applyAll_actions:
  "fst (applyAll sampleActionLayer 2 [callA, callB] h) = Inr ()"
  "storedValue (snd (applyAll sampleActionLayer 2 [callA, callB] h) 2) = storedValue (h 2) + 2"
  by (simp_all add: sampleActionLayer_def)

lemma sample_recorded:
  "nodes (snd (recordPatches 1 sampleStore)) 2 = sample 2"
  "nodes (snd (recordActions 1 sampleStore)) 2 = sample 2"
  "storedValue (sample 2) = 102" "nodeIsAlive (sample 2)"
  by (simp_all add: recordPatches_def recordActions_def onPatch_def nodeOnPatch_def onAction_def
      sampleStore_def sample_def blank_def Let_def)

lemma sample_applyAll_patches:
  "fst (applyAll (patchLayerResult samplePatchLayer) 2 [patchA, patchB] h) = Inr ()"
  "storedValue (snd (applyAll (patchLayerResult samplePatchLayer) 2 [patchA, patchB] h) 2) = 8"
  by (simp_all add: patchLayerResult_def samplePatchLayer_def patchA_def patchB_def)

text \<open>
  C4. \<^verbatim>\<open>recordPatches(subject)\<close> appends its listener to the patch listeners of the
  subject and starts with an empty array; when the feed of the subject then emits the
  patches \<open>ps\<close>, the array of the recorder is \<open>ps\<close> and the nodes are as before; and
  \<^verbatim>\<open>replay(target)\<close> applies the patches of the array to the target in the order of the
  array, inside one atomic unit: its result and the nodes it leaves are those of applying
  \<open>ps\<close> one after the other through the type layer, the patches handed to the target are
  the first \<open>handedOver\<close> of the array, which is all of them when the call succeeds, and
  on a dead target the call fails and changes nothing. \<^verbatim>\<open>recordActions\<close> does the same
  with serialized action calls, whose replay does not ask whether the target is alive.
  The reference of a new recorder is fresh: no listener of the subject holds it yet.
\<close>

theorem recorders_record_and_replay:
  assumes freshP: "PushPatch (nextRecorder s) \<notin> set (patchSubscribers (nodes s subject))"
      and freshA: "PushAction (nextRecorder s) \<notin> set (actionSubscribers (nodes s subject))"
      and recP: "recordPatches subject s = (prec, sp)"
      and recA: "recordActions subject s = (arec, sa)"
      and emitP: "sp' = fold (emitPatch subject) ps sp"
      and emitA: "sa' = fold (emitAction subject) cs sa"
  shows "patchSubscribers (nodes sp subject) =
           patchSubscribers (nodes s subject) @ [PushPatch (recorderRef prec)]
       \<and> patchRecorders sp (recorderRef prec) = []
       \<and> patchRecorders sp' (recorderRef prec) = ps
       \<and> nodes sp' = nodes sp
       \<and> (\<not> nodeIsAlive (nodes sp' target) \<longrightarrow>
            replayPatches player prec target sp' = (Inl DeadNodeError, sp'))
       \<and> (nodeIsAlive (nodes sp' target) \<longrightarrow>
            fst (replayPatches player prec target sp') =
              fst (applyAll (patchLayerResult player) target ps (nodes sp'))
          \<and> nodes (snd (replayPatches player prec target sp')) =
              snd (applyAll (patchLayerResult player) target ps (nodes sp'))
          \<and> (fst (replayPatches player prec target sp') = Inr () \<longrightarrow>
               handedOver (patchLayerResult player) target ps (nodes sp') = length ps)
          \<and> (\<exists>mid fl.
                events (snd (replayPatches player prec target sp')) =
                  events sp' @ BatchStart # mid @ BatchEnd # fl
              \<and> filter isApplied mid =
                  map (PatchApplied target)
                    (take (handedOver (patchLayerResult player) target ps (nodes sp')) ps)
              \<and> (\<forall>e\<in>set mid. \<not> isSnapshotCall e)
              \<and> nesting 0 mid = Some 0
              \<and> (\<forall>e\<in>set fl. isSnapshotCall e)))
       \<and> actionSubscribers (nodes sa subject) =
           actionSubscribers (nodes s subject) @ [PushAction (recorderRef arec)]
       \<and> actionRecorders sa (recorderRef arec) = []
       \<and> actionRecorders sa' (recorderRef arec) = cs
       \<and> nodes sa' = nodes sa
       \<and> fst (replayActions alayer arec target sa') = fst (applyAll alayer target cs (nodes sa'))
       \<and> nodes (snd (replayActions alayer arec target sa')) =
           snd (applyAll alayer target cs (nodes sa'))
       \<and> (fst (replayActions alayer arec target sa') = Inr () \<longrightarrow>
            handedOver alayer target cs (nodes sa') = length cs)
       \<and> (\<exists>mid fl.
              events (snd (replayActions alayer arec target sa')) =
                events sa' @ BatchStart # mid @ BatchEnd # fl
            \<and> filter isApplied mid =
                map (ActionApplied target) (take (handedOver alayer target cs (nodes sa')) cs)
            \<and> (\<forall>e\<in>set mid. \<not> isSnapshotCall e)
            \<and> nesting 0 mid = Some 0
            \<and> (\<forall>e\<in>set fl. isSnapshotCall e))"
proof -
  from recordPatches_subscribes [OF freshP] recP emitP have
    p: "recorderRef prec = nextRecorder s"
       "patchSubscribers (nodes sp subject) =
          patchSubscribers (nodes s subject) @ [PushPatch (nextRecorder s)]"
       "patchRecorders sp (nextRecorder s) = []"
       "patchRecorders sp' (nextRecorder s) = ps"
    by simp_all
  from recordActions_subscribes [OF freshA] recA emitA have
    a: "recorderRef arec = nextRecorder s"
       "actionSubscribers (nodes sa subject) =
          actionSubscribers (nodes s subject) @ [PushAction (nextRecorder s)]"
       "actionRecorders sa (nextRecorder s) = []"
       "actionRecorders sa' (nextRecorder s) = cs"
    by simp_all
  have np: "nodes sp' = nodes sp" unfolding emitP by (rule fold_emitPatch_same_nodes)
  have na: "nodes sa' = nodes sa" unfolding emitA by (rule fold_emitAction_same_nodes)
  have rp: "replayPatches player prec target sp' = applyPatches player target ps sp'"
    using p(1,4) by (simp add: replayPatches_def applyPatch_def)
  have ra: "replayActions alayer arec target sa' = applyAction alayer target (Many cs) sa'"
    using a(1,4) by (simp add: replayActions_def)
  have dead: "\<not> nodeIsAlive (nodes sp' target) \<longrightarrow>
      replayPatches player prec target sp' = (Inl DeadNodeError, sp')"
    unfolding rp by (simp add: applyPatches_def)
  have replayP: "nodeIsAlive (nodes sp' target) \<longrightarrow>
            fst (replayPatches player prec target sp') =
              fst (applyAll (patchLayerResult player) target ps (nodes sp'))
          \<and> nodes (snd (replayPatches player prec target sp')) =
              snd (applyAll (patchLayerResult player) target ps (nodes sp'))
          \<and> (fst (replayPatches player prec target sp') = Inr () \<longrightarrow>
               handedOver (patchLayerResult player) target ps (nodes sp') = length ps)
          \<and> (\<exists>mid fl.
                events (snd (replayPatches player prec target sp')) =
                  events sp' @ BatchStart # mid @ BatchEnd # fl
              \<and> filter isApplied mid =
                  map (PatchApplied target)
                    (take (handedOver (patchLayerResult player) target ps (nodes sp')) ps)
              \<and> (\<forall>e\<in>set mid. \<not> isSnapshotCall e)
              \<and> nesting 0 mid = Some 0
              \<and> (\<forall>e\<in>set fl. isSnapshotCall e))"
  proof
    assume alive: "nodeIsAlive (nodes sp' target)"
    note e = applyPatches_events [OF alive, of player ps]
    from e have r: "fst (applyPatches player target ps sp') =
        fst (applyAll (patchLayerResult player) target ps (nodes sp'))" by blast
    have h: "fst (applyPatches player target ps sp') = Inr () \<longrightarrow>
        handedOver (patchLayerResult player) target ps (nodes sp') = length ps"
      unfolding r by (simp add: handedOver_all)
    from e h show
      "fst (replayPatches player prec target sp') =
              fst (applyAll (patchLayerResult player) target ps (nodes sp'))
          \<and> nodes (snd (replayPatches player prec target sp')) =
              snd (applyAll (patchLayerResult player) target ps (nodes sp'))
          \<and> (fst (replayPatches player prec target sp') = Inr () \<longrightarrow>
               handedOver (patchLayerResult player) target ps (nodes sp') = length ps)
          \<and> (\<exists>mid fl.
                events (snd (replayPatches player prec target sp')) =
                  events sp' @ BatchStart # mid @ BatchEnd # fl
              \<and> filter isApplied mid =
                  map (PatchApplied target)
                    (take (handedOver (patchLayerResult player) target ps (nodes sp')) ps)
              \<and> (\<forall>e\<in>set mid. \<not> isSnapshotCall e)
              \<and> nesting 0 mid = Some 0
              \<and> (\<forall>e\<in>set fl. isSnapshotCall e))"
      unfolding rp by blast
  qed
  note e = applyAction_events [of alayer target "Many cs" sa']
  from e have r: "fst (applyAction alayer target (Many cs) sa') =
      fst (applyAll alayer target cs (nodes sa'))" by simp
  have h: "fst (applyAction alayer target (Many cs) sa') = Inr () \<longrightarrow>
      handedOver alayer target cs (nodes sa') = length cs"
    unfolding r by (simp add: handedOver_all)
  from e h have replayA:
    "fst (replayActions alayer arec target sa') = fst (applyAll alayer target cs (nodes sa'))
       \<and> nodes (snd (replayActions alayer arec target sa')) =
           snd (applyAll alayer target cs (nodes sa'))
       \<and> (fst (replayActions alayer arec target sa') = Inr () \<longrightarrow>
            handedOver alayer target cs (nodes sa') = length cs)
       \<and> (\<exists>mid fl.
              events (snd (replayActions alayer arec target sa')) =
                events sa' @ BatchStart # mid @ BatchEnd # fl
            \<and> filter isApplied mid =
                map (ActionApplied target) (take (handedOver alayer target cs (nodes sa')) cs)
            \<and> (\<forall>e\<in>set mid. \<not> isSnapshotCall e)
            \<and> nesting 0 mid = Some 0
            \<and> (\<forall>e\<in>set fl. isSnapshotCall e))"
    unfolding ra by (simp only: asArray.simps) blast
  from p a np na dead replayP replayA show ?thesis by simp
qed

theorem recorders_record_and_replay_witness:
  "patchRecorders (fold (emitPatch 1) [patchA, patchB] (snd (recordPatches 1 sampleStore)))
      (recorderRef (fst (recordPatches 1 sampleStore))) = [patchA, patchB]
   \<and> storedValue (nodes (fold (emitPatch 1) [patchA, patchB] (snd (recordPatches 1 sampleStore))) 2) = 102
   \<and> fst (replayPatches samplePatchLayer (fst (recordPatches 1 sampleStore)) 2
            (fold (emitPatch 1) [patchA, patchB] (snd (recordPatches 1 sampleStore)))) = Inr ()
   \<and> storedValue (nodes (snd (replayPatches samplePatchLayer (fst (recordPatches 1 sampleStore)) 2
            (fold (emitPatch 1) [patchA, patchB] (snd (recordPatches 1 sampleStore))))) 2) = 8
   \<and> (\<exists>mid fl.
         events (snd (replayPatches samplePatchLayer (fst (recordPatches 1 sampleStore)) 2
                        (fold (emitPatch 1) [patchA, patchB] (snd (recordPatches 1 sampleStore))))) =
           events (fold (emitPatch 1) [patchA, patchB] (snd (recordPatches 1 sampleStore)))
             @ BatchStart # mid @ BatchEnd # fl
       \<and> filter isApplied mid = [PatchApplied 2 patchA, PatchApplied 2 patchB])
   \<and> actionRecorders (fold (emitAction 1) [callA, callB] (snd (recordActions 1 sampleStore)))
      (recorderRef (fst (recordActions 1 sampleStore))) = [callA, callB]
   \<and> storedValue (nodes (fold (emitAction 1) [callA, callB] (snd (recordActions 1 sampleStore))) 2) = 102
   \<and> fst (replayActions sampleActionLayer (fst (recordActions 1 sampleStore)) 2
            (fold (emitAction 1) [callA, callB] (snd (recordActions 1 sampleStore)))) = Inr ()
   \<and> storedValue (nodes (snd (replayActions sampleActionLayer (fst (recordActions 1 sampleStore)) 2
            (fold (emitAction 1) [callA, callB] (snd (recordActions 1 sampleStore))))) 2) = 104
   \<and> (\<exists>mid fl.
         events (snd (replayActions sampleActionLayer (fst (recordActions 1 sampleStore)) 2
                        (fold (emitAction 1) [callA, callB] (snd (recordActions 1 sampleStore))))) =
           events (fold (emitAction 1) [callA, callB] (snd (recordActions 1 sampleStore)))
             @ BatchStart # mid @ BatchEnd # fl
       \<and> filter isApplied mid = [ActionApplied 2 callA, ActionApplied 2 callB])"
proof -
  let ?prec = "fst (recordPatches 1 sampleStore)" and ?sp = "snd (recordPatches 1 sampleStore)"
  let ?arec = "fst (recordActions 1 sampleStore)" and ?sa = "snd (recordActions 1 sampleStore)"
  let ?sp' = "fold (emitPatch 1) [patchA, patchB] ?sp"
  let ?sa' = "fold (emitAction 1) [callA, callB] ?sa"
  have freshP: "PushPatch (nextRecorder sampleStore) \<notin> set (patchSubscribers (nodes sampleStore 1))"
    by (simp add: sampleStore_def sample_def blank_def)
  have freshA: "PushAction (nextRecorder sampleStore) \<notin> set (actionSubscribers (nodes sampleStore 1))"
    by (simp add: sampleStore_def sample_def blank_def)
  have recP: "recordPatches 1 sampleStore = (?prec, ?sp)" by simp
  have recA: "recordActions 1 sampleStore = (?arec, ?sa)" by simp
  note t = recorders_record_and_replay [where ps = "[patchA, patchB]" and cs = "[callA, callB]"
      and target = 2 and player = samplePatchLayer and alayer = sampleActionLayer,
      OF freshP freshA recP recA refl refl]
  from t have p1: "patchRecorders ?sp' (recorderRef ?prec) = [patchA, patchB]" by blast
  from t have a1: "actionRecorders ?sa' (recorderRef ?arec) = [callA, callB]" by blast
  from t have np: "nodes ?sp' = nodes ?sp" by blast
  from t have na: "nodes ?sa' = nodes ?sa" by blast
  have p2: "storedValue (nodes ?sp' 2) = 102" unfolding np by (simp only: sample_recorded)
  have a2: "storedValue (nodes ?sa' 2) = 102" unfolding na by (simp only: sample_recorded)
  have alive: "nodeIsAlive (nodes ?sp' 2)" unfolding np by (simp only: sample_recorded)
  from t alive have
    pr: "fst (replayPatches samplePatchLayer ?prec 2 ?sp') =
           fst (applyAll (patchLayerResult samplePatchLayer) 2 [patchA, patchB] (nodes ?sp'))"
        "nodes (snd (replayPatches samplePatchLayer ?prec 2 ?sp')) =
           snd (applyAll (patchLayerResult samplePatchLayer) 2 [patchA, patchB] (nodes ?sp'))"
    by blast+
  from pr(1) have p3: "fst (replayPatches samplePatchLayer ?prec 2 ?sp') = Inr ()"
    by (simp only: sample_applyAll_patches)
  from pr(2) have p4: "storedValue (nodes (snd (replayPatches samplePatchLayer ?prec 2 ?sp')) 2) = 8"
    by (simp only: sample_applyAll_patches)
  from t alive p3 have pk: "handedOver (patchLayerResult samplePatchLayer) 2 [patchA, patchB]
      (nodes ?sp') = length [patchA, patchB]" by blast
  from t alive obtain mid fl where
    pe: "events (snd (replayPatches samplePatchLayer ?prec 2 ?sp')) =
           events ?sp' @ BatchStart # mid @ BatchEnd # fl"
        "filter isApplied mid = map (PatchApplied 2)
           (take (handedOver (patchLayerResult samplePatchLayer) 2 [patchA, patchB] (nodes ?sp'))
              [patchA, patchB])"
    by blast
  from pe(2) have "filter isApplied mid = [PatchApplied 2 patchA, PatchApplied 2 patchB]"
    unfolding pk by simp
  with pe(1) have p5: "\<exists>mid fl.
         events (snd (replayPatches samplePatchLayer ?prec 2 ?sp')) =
           events ?sp' @ BatchStart # mid @ BatchEnd # fl
       \<and> filter isApplied mid = [PatchApplied 2 patchA, PatchApplied 2 patchB]" by blast
  from t have
    ar: "fst (replayActions sampleActionLayer ?arec 2 ?sa') =
           fst (applyAll sampleActionLayer 2 [callA, callB] (nodes ?sa'))"
        "nodes (snd (replayActions sampleActionLayer ?arec 2 ?sa')) =
           snd (applyAll sampleActionLayer 2 [callA, callB] (nodes ?sa'))"
    by blast+
  from ar(1) have a3: "fst (replayActions sampleActionLayer ?arec 2 ?sa') = Inr ()"
    by (simp only: sample_applyAll_actions)
  from ar(2) a2 have a4:
    "storedValue (nodes (snd (replayActions sampleActionLayer ?arec 2 ?sa')) 2) = 104"
    by (simp add: sample_applyAll_actions(2) del: applyAll.simps)
  from t a3 have ak: "handedOver sampleActionLayer 2 [callA, callB] (nodes ?sa') =
      length [callA, callB]" by blast
  from t obtain mid fl where
    ae: "events (snd (replayActions sampleActionLayer ?arec 2 ?sa')) =
           events ?sa' @ BatchStart # mid @ BatchEnd # fl"
        "filter isApplied mid = map (ActionApplied 2)
           (take (handedOver sampleActionLayer 2 [callA, callB] (nodes ?sa')) [callA, callB])"
    by blast
  from ae(2) have "filter isApplied mid = [ActionApplied 2 callA, ActionApplied 2 callB]"
    unfolding ak by simp
  with ae(1) have a5: "\<exists>mid fl.
         events (snd (replayActions sampleActionLayer ?arec 2 ?sa')) =
           events ?sa' @ BatchStart # mid @ BatchEnd # fl
       \<and> filter isApplied mid = [ActionApplied 2 callA, ActionApplied 2 callB]" by blast
  from p1 p2 p3 p4 p5 a1 a2 a3 a4 a5 show ?thesis by (intro conjI)
qed

text \<open>
  C5. \<^verbatim>\<open>applyAction(target, actions)\<close> applies the actions of the array to the target in
  the order of the array, as one atomic unit: its result and the nodes it leaves are
  those of invoking the actions one after the other through the type layer, a failing
  action ends the call with its error and keeps what the actions before it did, and the
  actions handed to the target are the first \<open>handedOver\<close> of the array, all of them when
  the call succeeds. The call opens one unit and closes it after the last action: the
  log in between is well nested, no snapshot listener is called in between, the snapshot
  listeners that are called come after the unit is closed, and none is called when the
  call is made inside another unit. The depth of nesting is the same before and after,
  and at depth 0 nothing is left waiting to be reported.
\<close>

theorem applyAction_one_atomic_unit:
  "fst (applyAction layer target actions s) = fst (applyAll layer target (asArray actions) (nodes s))
 \<and> nodes (snd (applyAction layer target actions s)) =
     snd (applyAll layer target (asArray actions) (nodes s))
 \<and> inBatch (snd (applyAction layer target actions s)) = inBatch s
 \<and> (inBatch s = 0 \<longrightarrow> changed (snd (applyAction layer target actions s)) = [])
 \<and> handedOver layer target (asArray actions) (nodes s) \<le> length (asArray actions)
 \<and> (fst (applyAction layer target actions s) = Inr () \<longrightarrow>
       handedOver layer target (asArray actions) (nodes s) = length (asArray actions))
 \<and> (\<exists>mid fl.
      events (snd (applyAction layer target actions s)) = events s @ BatchStart # mid @ BatchEnd # fl
    \<and> filter isApplied mid =
        map (ActionApplied target)
          (take (handedOver layer target (asArray actions) (nodes s)) (asArray actions))
    \<and> (\<forall>e\<in>set mid. \<not> isSnapshotCall e)
    \<and> nesting 0 mid = Some 0
    \<and> (\<forall>e\<in>set fl. isSnapshotCall e)
    \<and> (0 < inBatch s \<longrightarrow> fl = []))"
proof -
  note e = applyAction_events [of layer target actions s]
  from e have r: "fst (applyAction layer target actions s) =
      fst (applyAll layer target (asArray actions) (nodes s))" by blast
  have "fst (applyAction layer target actions s) = Inr () \<longrightarrow>
       handedOver layer target (asArray actions) (nodes s) = length (asArray actions)"
    unfolding r by (simp add: handedOver_all)
  with e handedOver_le [of layer target "asArray actions" "nodes s"] show ?thesis by blast
qed

theorem applyAction_one_atomic_unit_witness:
  "fst (applyAction sampleActionLayer 2 (Many [callA, callB]) sampleStore) = Inr ()
   \<and> storedValue (sample 2) = 102
   \<and> storedValue (nodes (snd (applyAction sampleActionLayer 2 (Many [callA, callB]) sampleStore)) 2) = 104
   \<and> (\<exists>mid fl.
         events (snd (applyAction sampleActionLayer 2 (Many [callA, callB]) sampleStore)) =
           BatchStart # mid @ BatchEnd # fl
       \<and> filter isApplied mid = [ActionApplied 2 callA, ActionApplied 2 callB]
       \<and> (\<forall>e\<in>set mid. \<not> isSnapshotCall e)
       \<and> nesting 0 mid = Some 0
       \<and> (\<forall>e\<in>set fl. isSnapshotCall e))"
proof -
  have st: "nodes sampleStore = sample" "events sampleStore = []"
    by (simp_all add: sampleStore_def)
  note t = applyAction_one_atomic_unit [of sampleActionLayer 2 "Many [callA, callB]" sampleStore]
  from t have "fst (applyAction sampleActionLayer 2 (Many [callA, callB]) sampleStore) =
      fst (applyAll sampleActionLayer 2 (asArray (Many [callA, callB])) (nodes sampleStore))"
    by blast
  then have ok: "fst (applyAction sampleActionLayer 2 (Many [callA, callB]) sampleStore) = Inr ()"
    by (simp only: asArray.simps st sample_applyAll_actions)
  from t have "nodes (snd (applyAction sampleActionLayer 2 (Many [callA, callB]) sampleStore)) =
      snd (applyAll sampleActionLayer 2 (asArray (Many [callA, callB])) (nodes sampleStore))"
    by blast
  then have "storedValue (nodes (snd (applyAction sampleActionLayer 2 (Many [callA, callB])
      sampleStore)) 2) = storedValue (snd (applyAll sampleActionLayer 2 [callA, callB] sample) 2)"
    by (simp only: asArray.simps st)
  then have nd: "storedValue (nodes (snd (applyAction sampleActionLayer 2 (Many [callA, callB])
      sampleStore)) 2) = 104"
    by (simp add: sample_applyAll_actions(2) sample_recorded(3) del: applyAll.simps)
  from t ok have k: "handedOver sampleActionLayer 2 (asArray (Many [callA, callB])) (nodes sampleStore)
      = length (asArray (Many [callA, callB]))" by blast
  from t obtain mid fl where
    c: "events (snd (applyAction sampleActionLayer 2 (Many [callA, callB]) sampleStore)) =
          events sampleStore @ BatchStart # mid @ BatchEnd # fl"
      "filter isApplied mid = map (ActionApplied 2)
         (take (handedOver sampleActionLayer 2 (asArray (Many [callA, callB])) (nodes sampleStore))
           (asArray (Many [callA, callB])))"
      "\<forall>e\<in>set mid. \<not> isSnapshotCall e" "nesting 0 mid = Some 0" "\<forall>e\<in>set fl. isSnapshotCall e"
    by blast
  from c(2) have "filter isApplied mid = [ActionApplied 2 callA, ActionApplied 2 callB]"
    unfolding k by simp
  moreover have "storedValue (sample 2) = 102" by (rule sample_recorded)
  ultimately show ?thesis using ok nd c(1,3,4,5) st by auto
qed

text \<open>
  C8. In a store where nothing waits to be reported outside an atomic unit,
  \<^verbatim>\<open>applyAction(target, [])\<close> and, on a live target, \<^verbatim>\<open>applyPatch(target, [])\<close> change
  nothing but the log, to which they add the opening and the closing of an empty unit
  and no call of a listener; on a dead target \<^verbatim>\<open>applyPatch\<close> fails and changes nothing.
\<close>

theorem empty_lists_are_noops:
  assumes "inBatch s = 0 \<longrightarrow> changed s = []"
  shows "applyAction alayer target (Many []) s =
           (Inr (), s\<lparr>events := events s @ [BatchStart, BatchEnd]\<rparr>)
       \<and> (nodeIsAlive (nodes s target) \<longrightarrow>
            applyPatch player target (Many []) s =
              (Inr (), s\<lparr>events := events s @ [BatchStart, BatchEnd]\<rparr>))
       \<and> (\<not> nodeIsAlive (nodes s target) \<longrightarrow>
            applyPatch player target (Many []) s = (Inl DeadNodeError, s))
       \<and> nodes (snd (applyAction alayer target (Many []) s)) = nodes s
       \<and> nodes (snd (applyPatch player target (Many []) s)) = nodes s
       \<and> (\<forall>e\<in>set [BatchStart, BatchEnd :: 'a event]. \<not> isListenerCall e)"
  using endBatch_startBatch_quiet [OF assms]
  by (simp add: applyAction_def applyPatch_def applyPatches_def runInAction_def)

theorem empty_lists_are_noops_witness:
  "inBatch sampleStore = 0 \<and> changed sampleStore = []
   \<and> applyAction sampleActionLayer 2 (Many []) sampleStore =
       (Inr (), sampleStore\<lparr>events := [BatchStart, BatchEnd]\<rparr>)
   \<and> applyPatch samplePatchLayer 2 (Many []) sampleStore =
       (Inr (), sampleStore\<lparr>events := [BatchStart, BatchEnd]\<rparr>)"
proof -
  have q: "inBatch sampleStore = 0 \<longrightarrow> changed sampleStore = []" by (simp add: sampleStore_def)
  have l: "nodeIsAlive (nodes sampleStore 2)" by (simp add: sampleStore_def sample_def blank_def)
  have e: "events sampleStore = []" by (simp add: sampleStore_def)
  have c: "inBatch sampleStore = 0 \<and> changed sampleStore = []" by (simp add: sampleStore_def)
  from empty_lists_are_noops [OF q, of sampleActionLayer 2 samplePatchLayer] l e c
  show ?thesis by simp
qed

end
